theory Spec2Isabelle
  imports Main
begin

section \<open>The ShivyC parser (parser.py)\<close>

subsection \<open>Tokens, syntax trees and errors\<close>

text \<open>
  Modelled from the spec: the module \<^verbatim>\<open>token_kinds\<close> is not part of the sources at hand.
  The spec lists its closed enumeration: the keywords int, main and return, the punctuation
  ( ) { } ; + * = and the classes number and identifier. The kinds of the plus
  sign and of identifiers are called \<open>plus_kind\<close> and \<open>identifier_kind\<close> here, since
  \<open>plus\<close> is the addition of HOL and the other name is a keyword of Isabelle.
\<close>

datatype token_kind =
    int_kw | main | return_kw
  | open_paren | close_paren | open_brack | close_brack | semicolon
  | plus_kind | star | equals
  | number | identifier_kind

text \<open>
  Modelled from the spec: the class \<^verbatim>\<open>Token\<close> of the module \<^verbatim>\<open>tokens\<close> is an immutable
  terminal with a kind; its text stands for the metadata the parser never reads.
\<close>

datatype token = Token (kind: token_kind) (content: string)

text \<open>
  Modelled from the spec: the constructors of the module \<^verbatim>\<open>ast\<close> are opaque data
  constructors. Each one takes exactly the arguments that parser.py passes to it.
\<close>

datatype node =
    MainNode "node list"
  | ReturnNode node
  | ExprStatementNode node
  | NumberNode token
  | IdentifierNode token
  | ParenExprNode node
  | BinaryOperatorNode node token node
  | DeclarationNode token

datatype message_type = AT | GOT | AFTER

text \<open>
  Modelled from the spec: \<^verbatim>\<open>errors.ParserError(err, index, tokens, kind)\<close> carries the
  message, the anchoring mode and the amount of input parsed before the failure, which is
  the index it is built with. The token list is passed along for rendering only.
\<close>

datatype parser_error =
  ParserError (message: string) (amount_parsed: nat) (anchor: message_type)

text \<open>
  The exceptions that can leave a function of the parser: a \<^verbatim>\<open>ParserError\<close>, the internal
  \<^verbatim>\<open>MatchError\<close>, Python's \<^verbatim>\<open>IndexError\<close> for \<^verbatim>\<open>self.tokens[i]\<close> out of range, and
  Python's \<^verbatim>\<open>TypeError\<close> for \<^verbatim>\<open>raise None\<close>.
\<close>

datatype exn = ParserErr parser_error | MatchError | IndexError | TypeError

subsection \<open>Utility functions: \<^verbatim>\<open>match_tokens\<close>, \<^verbatim>\<open>match_token\<close>, \<^verbatim>\<open>log_error\<close>\<close>

text \<open>
  \<^verbatim>\<open>tokens = self.tokens[index:]\<close> is \<open>drop index tokens\<close>: a slice never raises, and is
  empty when the index is past the end. \<^verbatim>\<open>zip\<close> stops at the shorter list.
\<close>

definition match_tokens :: "token list \<Rightarrow> nat \<Rightarrow> token_kind list \<Rightarrow> exn + nat" where
  "match_tokens tokens index kinds_expected =
     (let toks = drop index tokens in
      if length toks < length kinds_expected then Inl MatchError
      else if list_all (\<lambda>(k, t). k = kind t) (zip kinds_expected toks)
      then Inr (index + length kinds_expected)
      else Inl MatchError)"

definition match_token :: "token list \<Rightarrow> nat \<Rightarrow> token_kind \<Rightarrow> exn + nat" where
  "match_token tokens index kind_expected = match_tokens tokens index [kind_expected]"

text \<open>
  \<^verbatim>\<open>self.best_error\<close> is \<open>None\<close> or a \<^verbatim>\<open>ParserError\<close>; an exception object is truthy, so
  \<^verbatim>\<open>not self.best_error\<close> holds exactly for \<open>None\<close>. The function returns the new
  content of the slot.
\<close>

fun log_error :: "parser_error option \<Rightarrow> parser_error \<Rightarrow> parser_error option" where
  "log_error None error = Some error"
| "log_error (Some best) error =
     (if amount_parsed error \<ge> amount_parsed best then Some error else Some best)"

subsection \<open>\<^verbatim>\<open>parse_expression\<close>: the shift-reduce loop\<close>

definition binary_operators :: "token_kind \<rightharpoonup> nat" where
  "binary_operators = [plus_kind \<mapsto> 11, star \<mapsto> 12, equals \<mapsto> 1]"

definition assignment_operators :: "token_kind set" where
  "assignment_operators = {equals}"

datatype token_or_node = Tok token | Nd node

datatype StackItem = StackItem (item: token_or_node) (len: nat)

text \<open>
  The parsing stack is kept with its top at the head of the list: \<^verbatim>\<open>stack[-1]\<close> is
  \<open>stack ! 0\<close>, \<^verbatim>\<open>stack[-3]\<close> is \<open>stack ! 2\<close>, \<^verbatim>\<open>del stack[-3:]\<close> is \<open>drop 3\<close>,
  \<^verbatim>\<open>stack.append\<close> is \<open>#\<close> and \<^verbatim>\<open>stack[0]\<close> is \<open>last stack\<close>.
\<close>

fun is_token :: "StackItem \<Rightarrow> bool" where
  "is_token (StackItem (Tok t) l) = True"
| "is_token (StackItem (Nd n) l) = False"

fun is_node :: "StackItem \<Rightarrow> bool" where
  "is_node (StackItem (Tok t) l) = False"
| "is_node (StackItem (Nd n) l) = True"

text \<open>The two projections are read only behind the matching \<^verbatim>\<open>isinstance\<close> test.\<close>

fun the_token :: "StackItem \<Rightarrow> token" where
  "the_token (StackItem (Tok t) l) = t"
| "the_token (StackItem (Nd n) l) = undefined"

fun the_node :: "StackItem \<Rightarrow> node" where
  "the_node (StackItem (Nd n) l) = n"
| "the_node (StackItem (Tok t) l) = undefined"

text \<open>
  The guards of the \<^verbatim>\<open>if\<close>/\<^verbatim>\<open>elif\<close> chain in the body of \<^verbatim>\<open>while True\<close>, one
  definition for each, in the order of the source.
\<close>

definition number_on_top :: "StackItem list \<Rightarrow> bool" where
  "number_on_top stack \<longleftrightarrow>
     stack \<noteq> [] \<and> is_token (stack ! 0) \<and> kind (the_token (stack ! 0)) = number"

definition identifier_on_top :: "StackItem list \<Rightarrow> bool" where
  "identifier_on_top stack \<longleftrightarrow>
     stack \<noteq> [] \<and> is_token (stack ! 0) \<and> kind (the_token (stack ! 0)) = identifier_kind"

definition paren_expr_on_top :: "StackItem list \<Rightarrow> bool" where
  "paren_expr_on_top stack \<longleftrightarrow>
     length stack \<ge> 3
     \<and> is_token (stack ! 0) \<and> kind (the_token (stack ! 0)) = close_paren
     \<and> is_node (stack ! 1)
     \<and> is_token (stack ! 2) \<and> kind (the_token (stack ! 2)) = open_paren"

definition higher_precedence_next :: "token list \<Rightarrow> StackItem list \<Rightarrow> nat \<Rightarrow> bool" where
  "higher_precedence_next tokens stack i \<longleftrightarrow>
     i < length tokens
     \<and> binary_operators (kind (tokens ! i)) \<noteq> None
     \<and> the (binary_operators (kind (tokens ! i)))
         > the (binary_operators (kind (the_token (stack ! 1))))"

definition both_assignment :: "token list \<Rightarrow> StackItem list \<Rightarrow> nat \<Rightarrow> bool" where
  "both_assignment tokens stack i \<longleftrightarrow>
     i < length tokens
     \<and> kind (the_token (stack ! 1)) \<in> assignment_operators
     \<and> kind (tokens ! i) \<in> assignment_operators"

definition binary_operator_on_top :: "token list \<Rightarrow> StackItem list \<Rightarrow> nat \<Rightarrow> bool" where
  "binary_operator_on_top tokens stack i \<longleftrightarrow>
     length stack \<ge> 3
     \<and> is_node (stack ! 0)
     \<and> is_token (stack ! 1) \<and> binary_operators (kind (the_token (stack ! 1))) \<noteq> None
     \<and> is_node (stack ! 2)
     \<and> \<not> higher_precedence_next tokens stack i
     \<and> \<not> both_assignment tokens stack i"

definition never_in_expression :: "token_kind \<Rightarrow> bool" where
  "never_in_expression k \<longleftrightarrow>
     k \<noteq> number \<and> k \<noteq> identifier_kind \<and> k \<noteq> open_paren \<and> k \<noteq> close_paren
     \<and> binary_operators k = None"

text \<open>
  What one pass through the body of \<^verbatim>\<open>while True\<close> does. In the last branch the source
  reads \<^verbatim>\<open>self.tokens[i]\<close> after the test \<^verbatim>\<open>i == len(self.tokens)\<close> only, so a cursor
  past the end raises \<^verbatim>\<open>IndexError\<close>.
\<close>

datatype loop_step = Continue "StackItem list" nat | Break | Raise exn

definition expr_step :: "token list \<Rightarrow> StackItem list \<Rightarrow> nat \<Rightarrow> loop_step" where
  "expr_step tokens stack i =
     (if number_on_top stack
      then Continue (StackItem (Nd (NumberNode (the_token (stack ! 0)))) 1 # drop 1 stack) i
      else if identifier_on_top stack
      then Continue (StackItem (Nd (IdentifierNode (the_token (stack ! 0)))) 1 # drop 1 stack) i
      else if paren_expr_on_top stack
      then Continue (StackItem (Nd (ParenExprNode (the_node (stack ! 1)))) (len (stack ! 1) + 2)
                      # drop 3 stack) i
      else if binary_operator_on_top tokens stack i
      then Continue (StackItem (Nd (BinaryOperatorNode (the_node (stack ! 2))
                                      (the_token (stack ! 1)) (the_node (stack ! 0))))
                               (len (stack ! 2) + len (stack ! 1) + len (stack ! 0))
                      # drop 3 stack) i
      else if i = length tokens then Break
      else if length tokens < i then Raise IndexError
      else if never_in_expression (kind (tokens ! i)) then Break
      else Continue (StackItem (Tok (tokens ! i)) 1 # stack) (i + 1))"

text \<open>
  The measure that every pass of the loop decreases: a shift advances the cursor, the
  reduction of a number or an identifier leaves one raw token less of these two kinds on
  the stack, the two other reductions make the stack two items shorter.
\<close>

definition raw_item :: "StackItem \<Rightarrow> bool" where
  "raw_item x \<longleftrightarrow> is_token x \<and> (kind (the_token x) = number \<or> kind (the_token x) = identifier_kind)"

definition loop_measure :: "token list \<Rightarrow> StackItem list \<Rightarrow> nat \<Rightarrow> nat" where
  "loop_measure tokens stack i =
     3 * (length tokens - i) + length stack + length (filter raw_item stack)"

function expr_loop :: "token list \<Rightarrow> StackItem list \<Rightarrow> nat \<Rightarrow> exn + StackItem list" where
  "expr_loop tokens stack i =
     (case expr_step tokens stack i of
        Continue stack' i' \<Rightarrow> expr_loop tokens stack' i'
      | Break \<Rightarrow> Inr stack
      | Raise e \<Rightarrow> Inl e)"
  by pat_completeness auto

lemma three_items: "3 \<le> length s \<Longrightarrow> \<exists>a b c r. s = a # b # c # r"
  by (cases s; cases "tl s"; cases "tl (tl s)") auto

lemma step_decreases:
  assumes s: "expr_step tokens stack i = Continue stack' i'"
  shows "loop_measure tokens stack' i' < loop_measure tokens stack i"
proof -
  consider (num) "number_on_top stack"
    | (ident) "\<not> number_on_top stack" "identifier_on_top stack"
    | (paren) "\<not> number_on_top stack" "\<not> identifier_on_top stack" "paren_expr_on_top stack"
    | (bin) "\<not> number_on_top stack" "\<not> identifier_on_top stack" "\<not> paren_expr_on_top stack"
        "binary_operator_on_top tokens stack i"
    | (shift) "\<not> number_on_top stack" "\<not> identifier_on_top stack" "\<not> paren_expr_on_top stack"
        "\<not> binary_operator_on_top tokens stack i"
    by blast
  then show ?thesis
  proof cases
    case num
    then obtain a r where "stack = a # r" "raw_item a"
      by (cases stack) (auto simp: number_on_top_def raw_item_def)
    with num s show ?thesis
      by (auto simp: expr_step_def loop_measure_def raw_item_def)
  next
    case ident
    then obtain a r where "stack = a # r" "raw_item a"
      by (cases stack) (auto simp: identifier_on_top_def raw_item_def)
    with ident s show ?thesis
      by (auto simp: expr_step_def loop_measure_def raw_item_def)
  next
    case paren
    then obtain a b c r where st: "stack = a # b # c # r"
      using three_items [of stack] by (auto simp: paren_expr_on_top_def)
    with paren have "\<not> raw_item a" "\<not> raw_item c" "\<not> raw_item b"
      by (cases b; cases "item b"; auto simp: paren_expr_on_top_def raw_item_def)+
    with paren s st show ?thesis
      by (auto simp: expr_step_def loop_measure_def)
  next
    case bin
    then obtain a b c r where st: "stack = a # b # c # r"
      using three_items [of stack] by (auto simp: binary_operator_on_top_def)
    with bin have "length (filter raw_item stack) \<le> Suc (length (filter raw_item r))"
      by (cases a; cases "item a"; cases c; cases "item c")
         (auto simp: binary_operator_on_top_def raw_item_def)
    with bin s st show ?thesis
      by (auto simp: expr_step_def loop_measure_def raw_item_def)
  next
    case shift
    with s show ?thesis
      by (auto simp: expr_step_def loop_measure_def split: if_splits)
  qed
qed

termination expr_loop
  by (relation "measure (\<lambda>(tokens, stack, i). loop_measure tokens stack i)")
     (auto simp: step_decreases)

declare expr_loop.simps [simp del]

text \<open>
  After the loop: \<^verbatim>\<open>stack[0]\<close> is the bottom of the stack, the last element of the list.
\<close>

definition parse_expression :: "token list \<Rightarrow> nat \<Rightarrow> exn + (node \<times> nat)" where
  "parse_expression tokens index =
     (case expr_loop tokens [] index of
        Inl e \<Rightarrow> Inl e
      | Inr stack \<Rightarrow>
          if stack \<noteq> [] \<and> is_node (last stack)
          then Inr (the_node (last stack), index + len (last stack))
          else Inl (ParserErr (ParserError ''expected expression'' index GOT)))"

subsection \<open>The productions\<close>

definition expect_semicolon :: "token list \<Rightarrow> nat \<Rightarrow> exn + nat" where
  "expect_semicolon tokens index =
     (case match_token tokens index semicolon of
        Inr index' \<Rightarrow> Inr index'
      | Inl MatchError \<Rightarrow> Inl (ParserErr (ParserError ''expected semicolon'' index AFTER))
      | Inl e \<Rightarrow> Inl e)"

definition parse_return :: "token list \<Rightarrow> nat \<Rightarrow> exn + (node \<times> nat)" where
  "parse_return tokens index =
     (case match_token tokens index return_kw of
        Inl MatchError \<Rightarrow> Inl (ParserErr (ParserError ''expected return keyword'' index GOT))
      | Inl e \<Rightarrow> Inl e
      | Inr index1 \<Rightarrow>
          (case parse_expression tokens index1 of
             Inl e \<Rightarrow> Inl e
           | Inr (node, index2) \<Rightarrow>
               (case expect_semicolon tokens index2 of
                  Inl e \<Rightarrow> Inl e
                | Inr index3 \<Rightarrow> Inr (ReturnNode node, index3))))"

definition parse_expr_statement :: "token list \<Rightarrow> nat \<Rightarrow> exn + (node \<times> nat)" where
  "parse_expr_statement tokens index =
     (case parse_expression tokens index of
        Inl e \<Rightarrow> Inl e
      | Inr (node, index1) \<Rightarrow>
          (case expect_semicolon tokens index1 of
             Inl e \<Rightarrow> Inl e
           | Inr index2 \<Rightarrow> Inr (ExprStatementNode node, index2)))"

text \<open>
  \<^verbatim>\<open>variable_name = self.tokens[index-1]\<close> is read after the identifier has been matched,
  so \<open>index2 - 1\<close> is the position of that identifier.
\<close>

definition parse_declaration :: "token list \<Rightarrow> nat \<Rightarrow> exn + (node \<times> nat)" where
  "parse_declaration tokens index =
     (case match_token tokens index int_kw of
        Inl MatchError \<Rightarrow> Inl (ParserErr (ParserError ''expected type name'' index GOT))
      | Inl e \<Rightarrow> Inl e
      | Inr index1 \<Rightarrow>
          (case match_token tokens index1 identifier_kind of
             Inl MatchError \<Rightarrow> Inl (ParserErr (ParserError ''expected identifier'' index1 AFTER))
           | Inl e \<Rightarrow> Inl e
           | Inr index2 \<Rightarrow>
               (case expect_semicolon tokens index2 of
                  Inl e \<Rightarrow> Inl e
                | Inr index3 \<Rightarrow> Inr (DeclarationNode (tokens ! (index2 - 1)), index3))))"

text \<open>
  The productions below write \<^verbatim>\<open>self.best_error\<close> through \<^verbatim>\<open>log_error\<close>: they take the
  content of the slot and return it with their result. An exception that is not a
  \<^verbatim>\<open>ParserError\<close> is not caught by \<^verbatim>\<open>except ParserError\<close> and goes on to the caller.
\<close>

definition parse_statement ::
  "token list \<Rightarrow> nat \<Rightarrow> parser_error option \<Rightarrow> (exn + (node \<times> nat)) \<times> parser_error option" where
  "parse_statement tokens index best_error =
     (case parse_return tokens index of
        Inr r \<Rightarrow> (Inr r, best_error)
      | Inl (ParserErr e) \<Rightarrow> (parse_expr_statement tokens index, log_error best_error e)
      | Inl x \<Rightarrow> (Inl x, best_error))"

text \<open>The \<^verbatim>\<open>while True\<close> loop of \<^verbatim>\<open>parse_main\<close>; \<^verbatim>\<open>nodes.append(node)\<close> is \<open>nodes @ [node]\<close>.\<close>

function main_loop ::
  "token list \<Rightarrow> nat \<Rightarrow> node list \<Rightarrow> parser_error option
     \<Rightarrow> (exn + (node list \<times> nat)) \<times> parser_error option" where
  "main_loop tokens index nodes best_error =
     (case parse_statement tokens index best_error of
        (Inr (node, index'), best1) \<Rightarrow> main_loop tokens index' (nodes @ [node]) best1
      | (Inl (ParserErr e), best1) \<Rightarrow>
          (case parse_declaration tokens index of
             Inr (node, index') \<Rightarrow> main_loop tokens index' (nodes @ [node]) (log_error best1 e)
           | Inl (ParserErr e') \<Rightarrow> (Inr (nodes, index), log_error (log_error best1 e) e')
           | Inl x \<Rightarrow> (Inl x, log_error best1 e))
      | (Inl x, best1) \<Rightarrow> (Inl x, best1))"
  by pat_completeness auto

text \<open>
  The loop ends because a statement or a declaration that is parsed ends with a semicolon
  that \<^verbatim>\<open>match_tokens\<close> has found in the list, behind the starting position.
\<close>

lemma match_tokens_Inr:
  "match_tokens tokens index kinds_expected = Inr j \<Longrightarrow> kinds_expected \<noteq> [] \<Longrightarrow>
     j = index + length kinds_expected \<and> j \<le> length tokens"
  by (cases kinds_expected) (auto simp: match_tokens_def Let_def split: if_splits)

lemma match_token_Inr: "match_token tokens index k = Inr j \<Longrightarrow> j = Suc index \<and> j \<le> length tokens"
  by (auto simp: match_token_def dest: match_tokens_Inr)

lemma expect_semicolon_Inr:
  "expect_semicolon tokens index = Inr j \<Longrightarrow> j = Suc index \<and> j \<le> length tokens"
  by (auto simp: expect_semicolon_def dest: match_token_Inr split: sum.splits exn.splits)

lemma parse_expression_Inr_le: "parse_expression tokens index = Inr (n, j) \<Longrightarrow> index \<le> j"
  by (auto simp: parse_expression_def split: sum.splits if_splits)

lemma parse_return_Inr:
  "parse_return tokens index = Inr (n, j) \<Longrightarrow> index < j \<and> j \<le> length tokens"
  by (auto simp: parse_return_def split: sum.splits exn.splits
           dest!: match_token_Inr expect_semicolon_Inr parse_expression_Inr_le)

lemma parse_expr_statement_Inr:
  "parse_expr_statement tokens index = Inr (n, j) \<Longrightarrow> index < j \<and> j \<le> length tokens"
  by (auto simp: parse_expr_statement_def split: sum.splits
           dest!: expect_semicolon_Inr parse_expression_Inr_le)

lemma parse_declaration_Inr:
  "parse_declaration tokens index = Inr (n, j) \<Longrightarrow> index < j \<and> j \<le> length tokens"
  by (auto simp: parse_declaration_def split: sum.splits exn.splits
           dest!: match_token_Inr expect_semicolon_Inr)

lemma parse_statement_Inr:
  "parse_statement tokens index b = (Inr (n, j), b') \<Longrightarrow> index < j \<and> j \<le> length tokens"
  by (auto simp: parse_statement_def split: sum.splits exn.splits
           dest!: parse_return_Inr parse_expr_statement_Inr)

termination main_loop
proof (relation "measure (\<lambda>(tokens, index, nodes, best_error). length tokens - index)")
  show "wf (measure (\<lambda>(tokens, index, nodes, best_error). length tokens - index))"
    by simp
next
  fix tokens index nodes best_error x best1 r node index'
  assume "(x, best1) = parse_statement tokens index best_error"
    and "x = Inr r" and "(node, index') = r"
  then have "parse_statement tokens index best_error = (Inr (node, index'), best1)"
    by simp
  from parse_statement_Inr [OF this] have "length tokens - index' < length tokens - index"
    by arith
  then show "((tokens, index', nodes @ [node], best1), tokens, index, nodes, best_error)
          \<in> measure (\<lambda>(tokens, index, nodes, best_error). length tokens - index)"
    by simp
next
  fix tokens index nodes best_error x best1 l e r node index'
  assume "parse_declaration tokens index = Inr r" and "(node, index') = r"
  then have "parse_declaration tokens index = Inr (node, index')"
    by simp
  from parse_declaration_Inr [OF this] have "length tokens - index' < length tokens - index"
    by arith
  then show "((tokens, index', nodes @ [node], log_error best1 e), tokens, index, nodes, best_error)
          \<in> measure (\<lambda>(tokens, index, nodes, best_error). length tokens - index)"
    by simp
qed

declare main_loop.simps [simp del]

text \<open>\<^verbatim>\<open>parse_main\<close> starts with an empty list of nodes and wraps the loop.\<close>

definition kinds_before :: "token_kind list" where
  "kinds_before = [int_kw, main, open_paren, close_paren, open_brack]"

definition parse_main ::
  "token list \<Rightarrow> nat \<Rightarrow> parser_error option \<Rightarrow> (exn + (node \<times> nat)) \<times> parser_error option" where
  "parse_main tokens index best_error =
     (case match_tokens tokens index kinds_before of
        Inl MatchError \<Rightarrow>
          (Inl (ParserErr (ParserError ''expected main function starting'' index AT)), best_error)
      | Inl e \<Rightarrow> (Inl e, best_error)
      | Inr index1 \<Rightarrow>
          (case main_loop tokens index1 [] best_error of
             (Inl e, best1) \<Rightarrow> (Inl e, best1)
           | (Inr (nodes, index2), best1) \<Rightarrow>
               (case match_token tokens index2 close_brack of
                  Inl MatchError \<Rightarrow>
                    (Inl (ParserErr (ParserError ''expected closing brace'' index2 GOT)), best1)
                | Inl e \<Rightarrow> (Inl e, best1)
                | Inr index3 \<Rightarrow> (Inr (MainNode nodes, index3), best1))))"

text \<open>
  \<^verbatim>\<open>parse\<close> runs on a fresh parser, whose slot holds \<open>None\<close>. \<^verbatim>\<open>self.tokens[index:]\<close> is
  truthy when it is not empty. \<^verbatim>\<open>raise self.best_error\<close> with \<open>None\<close> in the slot would
  be a \<^verbatim>\<open>TypeError\<close>.
\<close>

definition parse :: "token list \<Rightarrow> exn + node" where
  "parse tokens =
     (case parse_main tokens 0 None of
        (Inl (ParserErr e), best1) \<Rightarrow>
          (case log_error best1 e of
             Some best \<Rightarrow> Inl (ParserErr best)
           | None \<Rightarrow> Inl TypeError)
      | (Inl x, best1) \<Rightarrow> Inl x
      | (Inr (node, index), best1) \<Rightarrow>
          if drop index tokens \<noteq> []
          then Inl (ParserErr (ParserError ''unexpected token'' index AT))
          else Inr node)"

section \<open>Properties\<close>

subsection \<open>The token matcher\<close>

lemma zip_kinds_match:
  "length ks \<le> length ts \<Longrightarrow>
     list_all (\<lambda>(k, t). k = kind t) (zip ks ts) = (map kind (take (length ks) ts) = ks)"
proof (induction ks arbitrary: ts)
  case Nil
  then show ?case by simp
next
  case (Cons k ks)
  then obtain t ts' where "ts = t # ts'" by (cases ts) auto
  with Cons show ?case by auto
qed

text \<open>
  C7: \<^verbatim>\<open>match_tokens\<close> returns \<open>index + len(kinds_expected)\<close> exactly when the run of
  tokens that starts at \<open>index\<close> has the expected kinds in order, and raises
  \<^verbatim>\<open>MatchError\<close> otherwise. When fewer tokens remain than kinds are expected the run is
  too short to match, and the result is \<^verbatim>\<open>MatchError\<close> again: nothing is read out of
  range.
\<close>

theorem match_tokens_contract:
  "match_tokens tokens index kinds_expected =
     (if map kind (take (length kinds_expected) (drop index tokens)) = kinds_expected
      then Inr (index + length kinds_expected)
      else Inl MatchError)"
proof (cases "length (drop index tokens) < length kinds_expected")
  case True
  then have "length (map kind (take (length kinds_expected) (drop index tokens)))
               \<noteq> length kinds_expected"
    by simp
  then have "map kind (take (length kinds_expected) (drop index tokens)) \<noteq> kinds_expected"
    by metis
  with True show ?thesis
    by (simp add: match_tokens_def)
next
  case False
  then have "length kinds_expected \<le> length (drop index tokens)"
    by simp
  from zip_kinds_match [OF this] False show ?thesis
    by (simp add: match_tokens_def)
qed

theorem match_tokens_contract_witness:
  "match_tokens [Token int_kw ''int'', Token main ''main'', Token open_paren ''(''] 1
      [main, open_paren] = Inr 3
   \<and> match_tokens [Token int_kw ''int'', Token main ''main'', Token open_paren ''(''] 1
      [main, close_paren] = Inl MatchError
   \<and> match_tokens [Token int_kw ''int'', Token main ''main'', Token open_paren ''(''] 2
      [open_paren, close_paren] = Inl MatchError"
  using match_tokens_contract [of "[Token int_kw ''int'', Token main ''main'', Token open_paren ''('']" 1 "[main, open_paren]"]
    match_tokens_contract [of "[Token int_kw ''int'', Token main ''main'', Token open_paren ''('']" 1 "[main, close_paren]"]
    match_tokens_contract [of "[Token int_kw ''int'', Token main ''main'', Token open_paren ''('']" 2 "[open_paren, close_paren]"]
  by simp

lemma match_token_eq:
  "match_token tokens index k =
     (if index < length tokens \<and> kind (tokens ! index) = k then Inr (Suc index) else Inl MatchError)"
proof (cases "index < length tokens")
  case True
  then have "drop index tokens = tokens ! index # drop (Suc index) tokens"
    by (simp add: Cons_nth_drop_Suc)
  then show ?thesis using True
    by (simp add: match_token_def match_tokens_def)
next
  case False
  then show ?thesis
    by (simp add: match_token_def match_tokens_def)
qed

subsection \<open>One pass of the shift-reduce loop, case by case\<close>

lemma item_cases:
  obtains (tok) t l where "x = StackItem (Tok t) l" | (nd) n l where "x = StackItem (Nd n) l"
  by (cases x; cases "item x") auto

lemma number_on_top_iff:
  "number_on_top s \<longleftrightarrow> (\<exists>t l r. s = StackItem (Tok t) l # r \<and> kind t = number)"
proof (cases s)
  case Nil
  then show ?thesis by (simp add: number_on_top_def)
next
  case (Cons x r)
  then show ?thesis by (cases x rule: item_cases) (auto simp: number_on_top_def)
qed

lemma identifier_on_top_iff:
  "identifier_on_top s \<longleftrightarrow> (\<exists>t l r. s = StackItem (Tok t) l # r \<and> kind t = identifier_kind)"
proof (cases s)
  case Nil
  then show ?thesis by (simp add: identifier_on_top_def)
next
  case (Cons x r)
  then show ?thesis by (cases x rule: item_cases) (auto simp: identifier_on_top_def)
qed

lemma paren_expr_on_top_iff:
  "paren_expr_on_top s \<longleftrightarrow>
     (\<exists>tc lc n ln tp lp r.
        s = StackItem (Tok tc) lc # StackItem (Nd n) ln # StackItem (Tok tp) lp # r
        \<and> kind tc = close_paren \<and> kind tp = open_paren)"
proof (cases "3 \<le> length s")
  case False
  then show ?thesis by (auto simp: paren_expr_on_top_def)
next
  case True
  then obtain a b c r where s: "s = a # b # c # r"
    using three_items by blast
  show ?thesis unfolding s
    by (cases a rule: item_cases; cases b rule: item_cases; cases c rule: item_cases)
       (simp_all add: paren_expr_on_top_def)
qed

lemma binary_operator_on_top_iff:
  "binary_operator_on_top tokens s i \<longleftrightarrow>
     (\<exists>nr lr t lt nl ll r.
        s = StackItem (Nd nr) lr # StackItem (Tok t) lt # StackItem (Nd nl) ll # r
        \<and> binary_operators (kind t) \<noteq> None
        \<and> \<not> (i < length tokens \<and> binary_operators (kind (tokens ! i)) \<noteq> None
              \<and> the (binary_operators (kind (tokens ! i))) > the (binary_operators (kind t)))
        \<and> \<not> (i < length tokens \<and> kind t = equals \<and> kind (tokens ! i) = equals))"
proof (cases "3 \<le> length s")
  case False
  then show ?thesis by (auto simp: binary_operator_on_top_def)
next
  case True
  then obtain a b c r where s: "s = a # b # c # r"
    using three_items by blast
  show ?thesis unfolding s
    by (cases a rule: item_cases; cases b rule: item_cases; cases c rule: item_cases)
       (simp_all add: binary_operator_on_top_def higher_precedence_next_def both_assignment_def
          assignment_operators_def)
qed

lemma expr_step_cases [consumes 1, case_names num ident paren bin shift]:
  assumes "expr_step tokens s j = Continue s' j'"
  obtains
    (num) t l r where "s = StackItem (Tok t) l # r" "kind t = number"
      "s' = StackItem (Nd (NumberNode t)) 1 # r" "j' = j"
  | (ident) t l r where "s = StackItem (Tok t) l # r" "kind t = identifier_kind"
      "s' = StackItem (Nd (IdentifierNode t)) 1 # r" "j' = j"
  | (paren) tc lc n ln tp lp r where
      "s = StackItem (Tok tc) lc # StackItem (Nd n) ln # StackItem (Tok tp) lp # r"
      "kind tc = close_paren" "kind tp = open_paren"
      "s' = StackItem (Nd (ParenExprNode n)) (ln + 2) # r" "j' = j"
  | (bin) nr lr t lt nl ll r where
      "s = StackItem (Nd nr) lr # StackItem (Tok t) lt # StackItem (Nd nl) ll # r"
      "binary_operators (kind t) \<noteq> None"
      "s' = StackItem (Nd (BinaryOperatorNode nl t nr)) (ll + lt + lr) # r" "j' = j"
  | (shift) "j < length tokens" "\<not> never_in_expression (kind (tokens ! j))"
      "s' = StackItem (Tok (tokens ! j)) 1 # s" "j' = Suc j"
proof -
  consider (a) "number_on_top s"
    | (b) "\<not> number_on_top s" "identifier_on_top s"
    | (c) "\<not> number_on_top s" "\<not> identifier_on_top s" "paren_expr_on_top s"
    | (d) "\<not> number_on_top s" "\<not> identifier_on_top s" "\<not> paren_expr_on_top s"
        "binary_operator_on_top tokens s j"
    | (e) "\<not> number_on_top s" "\<not> identifier_on_top s" "\<not> paren_expr_on_top s"
        "\<not> binary_operator_on_top tokens s j"
    by blast
  then show thesis
  proof cases
    case a
    then obtain t l r where "s = StackItem (Tok t) l # r" "kind t = number"
      unfolding number_on_top_iff by blast
    with a assms num show thesis by (simp add: expr_step_def)
  next
    case b
    then obtain t l r where "s = StackItem (Tok t) l # r" "kind t = identifier_kind"
      unfolding identifier_on_top_iff by blast
    with b assms ident show thesis by (simp add: expr_step_def)
  next
    case c
    then obtain tc lc n ln tp lp r where
      "s = StackItem (Tok tc) lc # StackItem (Nd n) ln # StackItem (Tok tp) lp # r"
      "kind tc = close_paren" "kind tp = open_paren"
      unfolding paren_expr_on_top_iff by blast
    with c assms paren show thesis by (simp add: expr_step_def)
  next
    case d
    then obtain nr lr t lt nl ll r where
      "s = StackItem (Nd nr) lr # StackItem (Tok t) lt # StackItem (Nd nl) ll # r"
      "binary_operators (kind t) \<noteq> None"
      unfolding binary_operator_on_top_iff by blast
    with d assms bin show thesis by (simp add: expr_step_def)
  next
    case e
    with assms have "j < length tokens \<and> \<not> never_in_expression (kind (tokens ! j))
        \<and> s' = StackItem (Tok (tokens ! j)) 1 # s \<and> j' = Suc j"
      by (auto simp: expr_step_def split: if_splits)
    with shift show thesis by blast
  qed
qed

lemma expr_step_Raise: "expr_step tokens s j = Raise e \<Longrightarrow> e = IndexError \<and> length tokens < j"
  by (auto simp: expr_step_def split: if_splits)

lemma expr_loop_invariant:
  assumes "P stack i"
    and "\<And>s j s' j'. P s j \<Longrightarrow> expr_step tokens s j = Continue s' j' \<Longrightarrow> P s' j'"
  shows "\<exists>s j. P s j \<and>
     (case expr_loop tokens stack i of
        Inr st \<Rightarrow> st = s \<and> expr_step tokens s j = Break
      | Inl e \<Rightarrow> expr_step tokens s j = Raise e)"
  using assms
proof (induction tokens stack i rule: expr_loop.induct)
  case (1 tokens stack i)
  show ?case
  proof (cases "expr_step tokens stack i")
    case (Continue s' i')
    with "1.prems" have "P s' i'" by blast
    from "1.IH" [OF Continue this "1.prems"(2)] Continue show ?thesis
      by (simp add: expr_loop.simps [of tokens stack i])
  next
    case Break
    with "1.prems"(1) show ?thesis by (auto simp: expr_loop.simps [of tokens stack i])
  next
    case (Raise e)
    with "1.prems"(1) show ?thesis by (auto simp: expr_loop.simps [of tokens stack i])
  qed
qed

subsection \<open>The cursor and the spans of the stack items\<close>

text \<open>
  While the loop runs from a starting position inside the token list, the cursor stays
  inside the list, the spans of the stack items add up to the number of tokens shifted,
  a raw token has span 1 and a node has a span of at least 1.
\<close>

definition stack_span :: "StackItem list \<Rightarrow> nat" where
  "stack_span stack = sum_list (map len stack)"

definition span_inv :: "token list \<Rightarrow> nat \<Rightarrow> StackItem list \<Rightarrow> nat \<Rightarrow> bool" where
  "span_inv tokens index stack i \<longleftrightarrow>
     i \<le> length tokens \<and> index + stack_span stack = i
     \<and> list_all (\<lambda>x. 1 \<le> len x \<and> (is_token x \<longrightarrow> len x = 1)) stack"

lemma span_inv_step:
  assumes "span_inv tokens index s j" and "expr_step tokens s j = Continue s' j'"
  shows "span_inv tokens index s' j'"
  using assms(2,1)
  by (cases rule: expr_step_cases) (auto simp: span_inv_def stack_span_def)

lemma expr_loop_in_range:
  assumes "index \<le> length tokens"
  shows "\<exists>stack i. expr_loop tokens [] index = Inr stack \<and> span_inv tokens index stack i
           \<and> expr_step tokens stack i = Break"
proof -
  have "\<exists>s j. span_inv tokens index s j \<and>
     (case expr_loop tokens [] index of
        Inr st \<Rightarrow> st = s \<and> expr_step tokens s j = Break
      | Inl e \<Rightarrow> expr_step tokens s j = Raise e)"
  proof (rule expr_loop_invariant)
    show "span_inv tokens index [] index"
      using assms by (simp add: span_inv_def stack_span_def)
  next
    fix s j s' j'
    assume "span_inv tokens index s j" and "expr_step tokens s j = Continue s' j'"
    then show "span_inv tokens index s' j'" by (rule span_inv_step)
  qed
  then obtain s j where inv: "span_inv tokens index s j"
    and res: "case expr_loop tokens [] index of
                Inr st \<Rightarrow> st = s \<and> expr_step tokens s j = Break
              | Inl e \<Rightarrow> expr_step tokens s j = Raise e"
    by blast
  show ?thesis
  proof (cases "expr_loop tokens [] index")
    case (Inl e)
    with res have "expr_step tokens s j = Raise e" by simp
    then have "length tokens < j" by (simp add: expr_step_Raise)
    with inv show ?thesis by (simp add: span_inv_def)
  next
    case (Inr st)
    with res inv show ?thesis by auto
  qed
qed

lemma expr_loop_past_end:
  "length tokens < index \<Longrightarrow> expr_loop tokens [] index = Inl IndexError"
  by (simp add: expr_loop.simps [of tokens "[]" index] expr_step_def number_on_top_def identifier_on_top_def paren_expr_on_top_def
        binary_operator_on_top_def)

lemma last_span:
  "stack \<noteq> [] \<Longrightarrow> list_all (\<lambda>x. 1 \<le> len x \<and> (is_token x \<longrightarrow> len x = 1)) stack \<Longrightarrow>
     1 \<le> len (last stack) \<and> len (last stack) \<le> stack_span stack"
  by (induction stack) (auto simp: stack_span_def)

lemma parse_expression_progress:
  assumes "parse_expression tokens index = Inr (n, j)"
  shows "index < j \<and> j \<le> length tokens"
proof (cases "index \<le> length tokens")
  case False
  then show ?thesis using assms
    by (simp add: parse_expression_def expr_loop_past_end)
next
  case True
  from expr_loop_in_range [OF this] obtain stack i
    where l: "expr_loop tokens [] index = Inr stack" and inv: "span_inv tokens index stack i"
    by blast
  from assms l have ne: "stack \<noteq> []" and j: "j = index + len (last stack)"
    by (auto simp: parse_expression_def split: if_splits)
  from inv have "list_all (\<lambda>x. 1 \<le> len x \<and> (is_token x \<longrightarrow> len x = 1)) stack"
    by (simp add: span_inv_def)
  from last_span [OF ne this] inv j show ?thesis
    by (simp add: span_inv_def)
qed

subsection \<open>The result of \<^verbatim>\<open>parse_expression\<close>\<close>

text \<open>
  C3, as amended: when the loop stops, \<^verbatim>\<open>parse_expression\<close> succeeds exactly when the stack
  is not empty and its bottom item is an expression node, whether or not unreduced items
  lie above that node; it then returns the node and the starting position plus the span of
  the node. When the stack is empty or its bottom item is a raw token, it raises a
  \<^verbatim>\<open>ParserError\<close> anchored \<open>GOT\<close> at the starting position. From every starting position
  inside the token list the loop does stop with a stack.
\<close>

theorem parse_expression_result:
  "(expr_loop tokens [] index = Inr stack \<longrightarrow>
      parse_expression tokens index =
        (if stack \<noteq> [] \<and> is_node (last stack)
         then Inr (the_node (last stack), index + len (last stack))
         else Inl (ParserErr (ParserError ''expected expression'' index GOT))))
   \<and> (index \<le> length tokens \<longrightarrow> (\<exists>st. expr_loop tokens [] index = Inr st))"
  using expr_loop_in_range [of index tokens]
  by (auto simp: parse_expression_def)


theorem parse_expression_result_witness:
  "expr_loop [Token open_paren ''('', Token identifier_kind ''a''] [] 0
     = Inr [StackItem (Nd (IdentifierNode (Token identifier_kind ''a''))) 1,
            StackItem (Tok (Token open_paren ''('')) 1]
   \<and> parse_expression [Token open_paren ''('', Token identifier_kind ''a''] 0
     = Inl (ParserErr (ParserError ''expected expression'' 0 GOT))"
proof -
  have l: "expr_loop [Token open_paren ''('', Token identifier_kind ''a''] [] 0
     = Inr [StackItem (Nd (IdentifierNode (Token identifier_kind ''a''))) 1,
            StackItem (Tok (Token open_paren ''('')) 1]"
    by code_simp
  from parse_expression_result [of "[Token open_paren ''('', Token identifier_kind ''a'']" 0
      "[StackItem (Nd (IdentifierNode (Token identifier_kind ''a''))) 1,
        StackItem (Tok (Token open_paren ''('')) 1]"] l
  show ?thesis by simp
qed

text \<open>
  The claim as it was stated asks for a stack of exactly one node. For the input
  \<^verbatim>\<open>a +\<close> the loop stops with the operator left on top of the node of \<^verbatim>\<open>a\<close>, and the
  parse succeeds with that node and position 1.
\<close>

theorem dangling_operator_counterexample:
  "expr_loop [Token identifier_kind ''a'', Token plus_kind ''+''] [] 0
     = Inr [StackItem (Tok (Token plus_kind ''+'')) 1,
            StackItem (Nd (IdentifierNode (Token identifier_kind ''a''))) 1]
   \<and> parse_expression [Token identifier_kind ''a'', Token plus_kind ''+''] 0
     = Inr (IdentifierNode (Token identifier_kind ''a''), 1)"
  by code_simp


subsection \<open>The diagnostics of \<^verbatim>\<open>parse_return\<close>\<close>

lemma expect_semicolon_eq:
  "expect_semicolon tokens index =
     (if index < length tokens \<and> kind (tokens ! index) = semicolon then Inr (Suc index)
      else Inl (ParserErr (ParserError ''expected semicolon'' index AFTER)))"
  by (simp add: expect_semicolon_def match_token_eq)

lemma parse_expression_raises:
  assumes "parse_expression tokens index = Inl x"
  shows "(x = IndexError \<and> length tokens < index)
       \<or> (x = ParserErr (ParserError ''expected expression'' index GOT) \<and> index \<le> length tokens)"
proof (cases "index \<le> length tokens")
  case True
  from expr_loop_in_range [OF this] assms True show ?thesis
    by (auto simp: parse_expression_def split: if_splits)
next
  case False
  then show ?thesis using assms
    by (simp add: parse_expression_def expr_loop_past_end)
qed

text \<open>
  C6, as amended: when the token at the starting position is not the return keyword (or
  there is no token there), \<^verbatim>\<open>parse_return\<close> raises a \<^verbatim>\<open>ParserError\<close> anchored \<open>GOT\<close> at
  the starting position. When the keyword and the expression are there and the token
  behind the expression is not a semicolon, it raises a \<^verbatim>\<open>ParserError\<close> anchored \<open>AFTER\<close>
  at the position behind the expression, that is, after the last token consumed. Whatever
  \<^verbatim>\<open>parse_return\<close> raises is a \<^verbatim>\<open>ParserError\<close>: no \<^verbatim>\<open>MatchError\<close> leaves it. For the
  input \<^verbatim>\<open>return 4\<close> the diagnostic is anchored \<open>AFTER\<close> at position 2, behind the \<^verbatim>\<open>4\<close>.
\<close>

theorem parse_return_anchoring:
  "(\<not> (index < length tokens \<and> kind (tokens ! index) = return_kw) \<longrightarrow>
      parse_return tokens index
        = Inl (ParserErr (ParserError ''expected return keyword'' index GOT)))
   \<and> (index < length tokens \<and> kind (tokens ! index) = return_kw
        \<and> parse_expression tokens (Suc index) = Inr (node, j)
        \<and> \<not> (j < length tokens \<and> kind (tokens ! j) = semicolon) \<longrightarrow>
      parse_return tokens index
        = Inl (ParserErr (ParserError ''expected semicolon'' j AFTER)))
   \<and> (\<forall>x. parse_return tokens index = Inl x \<longrightarrow> (\<exists>e. x = ParserErr e))"
proof (intro conjI impI allI)
  assume "\<not> (index < length tokens \<and> kind (tokens ! index) = return_kw)"
  then show "parse_return tokens index
        = Inl (ParserErr (ParserError ''expected return keyword'' index GOT))"
    by (auto simp: parse_return_def match_token_eq)
next
  assume "index < length tokens \<and> kind (tokens ! index) = return_kw
        \<and> parse_expression tokens (Suc index) = Inr (node, j)
        \<and> \<not> (j < length tokens \<and> kind (tokens ! j) = semicolon)"
  then show "parse_return tokens index
        = Inl (ParserErr (ParserError ''expected semicolon'' j AFTER))"
    by (simp add: parse_return_def match_token_eq expect_semicolon_eq)
next
  fix x
  assume r: "parse_return tokens index = Inl x"
  show "\<exists>e. x = ParserErr e"
  proof (cases "index < length tokens \<and> kind (tokens ! index) = return_kw")
    case False
    with r show ?thesis by (auto simp: parse_return_def match_token_eq)
  next
    case True
    show ?thesis
    proof (cases "parse_expression tokens (Suc index)")
      case (Inl y)
      from parse_expression_raises [OF this] True have "\<exists>e. y = ParserErr e" by auto
      with r True Inl show ?thesis by (auto simp: parse_return_def match_token_eq)
    next
      case (Inr p)
      with r True show ?thesis
        by (cases p) (auto simp: parse_return_def match_token_eq expect_semicolon_eq split: if_splits)
    qed
  qed
qed

theorem parse_return_anchoring_witness:
  "parse_return [Token number ''4''] 0
     = Inl (ParserErr (ParserError ''expected return keyword'' 0 GOT))
   \<and> parse_expression [Token return_kw ''return'', Token number ''4''] (Suc 0)
     = Inr (NumberNode (Token number ''4''), 2)
   \<and> parse_return [Token return_kw ''return'', Token number ''4''] 0
     = Inl (ParserErr (ParserError ''expected semicolon'' 2 AFTER))
   \<and> [Token return_kw ''return'', Token number ''4''] ! (2 - 1) = Token number ''4''"
proof -
  have e: "parse_expression [Token return_kw ''return'', Token number ''4''] (Suc 0)
     = Inr (NumberNode (Token number ''4''), 2)"
    by code_simp
  from parse_return_anchoring [of 0 "[Token number ''4'']"]
  have a: "parse_return [Token number ''4''] 0
     = Inl (ParserErr (ParserError ''expected return keyword'' 0 GOT))"
    by simp
  from parse_return_anchoring [of 0 "[Token return_kw ''return'', Token number ''4'']"
      "NumberNode (Token number ''4'')" 2] e
  have b: "parse_return [Token return_kw ''return'', Token number ''4''] 0
     = Inl (ParserErr (ParserError ''expected semicolon'' 2 AFTER))"
    by simp
  from a b e show ?thesis by simp
qed

text \<open>
  The claim as it was stated has the first diagnostic anchored \<open>AT\<close>; the source passes
  \<^verbatim>\<open>ParserError.GOT\<close>.
\<close>

theorem parse_return_anchor_counterexample:
  "parse_return [Token number ''4''] 0
     = Inl (ParserErr (ParserError ''expected return keyword'' 0 GOT))
   \<and> anchor (ParserError ''expected return keyword'' 0 GOT) \<noteq> AT"
  by code_simp

subsection \<open>Tokens left over behind the main function\<close>

definition leftover_example :: "token list" where
  "leftover_example =
     [Token int_kw ''int'', Token main ''main'', Token open_paren ''('', Token close_paren '')'',
      Token open_brack ''{'', Token return_kw ''return'', Token number ''4'',
      Token semicolon '';'', Token close_brack ''}'', Token identifier_kind ''extra'']"

text \<open>
  C8: when \<^verbatim>\<open>parse_main\<close> succeeds at a position with tokens left behind it, \<^verbatim>\<open>parse\<close>
  raises the \<^verbatim>\<open>ParserError\<close> \<^verbatim>\<open>unexpected token\<close> anchored \<open>AT\<close> that position, the position
  of the first token left over, and returns no tree.
\<close>

theorem parse_leftover_tokens:
  "parse_main tokens 0 None = (Inr (node, index), best) \<Longrightarrow> index < length tokens \<Longrightarrow>
     parse tokens = Inl (ParserErr (ParserError ''unexpected token'' index AT))"
  by (simp add: parse_def)

theorem parse_leftover_tokens_witness:
  "parse_main leftover_example 0 None
     = (Inr (MainNode [ReturnNode (NumberNode (Token number ''4''))], 9),
        Some (ParserError ''expected type name'' 8 GOT))
   \<and> 9 < length leftover_example
   \<and> leftover_example ! 9 = Token identifier_kind ''extra''
   \<and> parse leftover_example = Inl (ParserErr (ParserError ''unexpected token'' 9 AT))"
proof -
  have m: "parse_main leftover_example 0 None
     = (Inr (MainNode [ReturnNode (NumberNode (Token number ''4''))], 9),
        Some (ParserError ''expected type name'' 8 GOT))"
    by code_simp
  have l: "9 < length leftover_example"
    by (simp add: leftover_example_def)
  have x: "leftover_example ! 9 = Token identifier_kind ''extra''"
    by (simp add: leftover_example_def)
  from parse_leftover_tokens [OF m l] m l x show ?thesis by simp
qed


subsection \<open>The best error\<close>

text \<open>
  The best error among the errors \<open>es\<close>, oldest first, in the words of the spec: one whose
  \<open>amount_parsed\<close> is the maximum, and the newest of these.
\<close>

definition newest_max :: "parser_error list \<Rightarrow> parser_error option" where
  "newest_max es =
     (if es = [] then None
      else Some (last (filter (\<lambda>e. amount_parsed e = Max (set (map amount_parsed es))) es)))"

text \<open>
  The errors that \<^verbatim>\<open>parse_statement\<close>, the loop of \<^verbatim>\<open>parse_main\<close> and \<^verbatim>\<open>parse_main\<close> pass
  to \<^verbatim>\<open>log_error\<close>, in the order of the calls.
\<close>

definition statement_log :: "token list \<Rightarrow> nat \<Rightarrow> parser_error list" where
  "statement_log tokens index =
     (case parse_return tokens index of Inl (ParserErr e) \<Rightarrow> [e] | _ \<Rightarrow> [])"

function main_loop_log :: "token list \<Rightarrow> nat \<Rightarrow> parser_error list" where
  "main_loop_log tokens index =
     statement_log tokens index @
     (case fst (parse_statement tokens index None) of
        Inr (node, index') \<Rightarrow> main_loop_log tokens index'
      | Inl (ParserErr e) \<Rightarrow>
          e # (case parse_declaration tokens index of
                 Inr (node, index') \<Rightarrow> main_loop_log tokens index'
               | Inl (ParserErr e') \<Rightarrow> [e']
               | Inl x \<Rightarrow> [])
      | Inl x \<Rightarrow> [])"
  by pat_completeness auto
termination
proof (relation "measure (\<lambda>(tokens, index). length tokens - index)")
  show "wf (measure (\<lambda>(tokens, index). length tokens - index))"
    by simp
next
  fix tokens index r node index'
  assume "fst (parse_statement tokens index None) = Inr r" and "(node, index') = r"
  then have "parse_statement tokens index None
      = (Inr (node, index'), snd (parse_statement tokens index None))"
    by (metis prod.collapse)
  from parse_statement_Inr [OF this] have "length tokens - index' < length tokens - index"
    by arith
  then show "((tokens, index'), tokens, index) \<in> measure (\<lambda>(tokens, index). length tokens - index)"
    by simp
next
  fix tokens index r node index'
  assume "parse_declaration tokens index = Inr r" and "(node, index') = r"
  then have "parse_declaration tokens index = Inr (node, index')"
    by simp
  from parse_declaration_Inr [OF this] have "length tokens - index' < length tokens - index"
    by arith
  then show "((tokens, index'), tokens, index) \<in> measure (\<lambda>(tokens, index). length tokens - index)"
    by simp
qed

declare main_loop_log.simps [simp del]

definition parse_main_log :: "token list \<Rightarrow> nat \<Rightarrow> parser_error list" where
  "parse_main_log tokens index =
     (case match_tokens tokens index kinds_before of
        Inr index1 \<Rightarrow> main_loop_log tokens index1
      | Inl e \<Rightarrow> [])"

definition truncated_example :: "token list" where
  "truncated_example =
     [Token int_kw ''int'', Token main ''main'', Token open_paren ''('', Token close_paren '')'',
      Token open_brack ''{'', Token return_kw ''return'', Token number ''4'',
      Token close_brack ''}'']"

lemma newest_max_snoc: "log_error (newest_max es) e = newest_max (es @ [e])"
proof (cases "es = []")
  case True
  then show ?thesis by (simp add: newest_max_def)
next
  case False
  define m where "m = Max (set (map amount_parsed es))"
  define b where "b = last (filter (\<lambda>x. amount_parsed x = m) es)"
  have fin: "finite (set (map amount_parsed es))" and ne: "set (map amount_parsed es) \<noteq> {}"
    using False by auto
  have "m \<in> set (map amount_parsed es)"
    unfolding m_def using Max_in [OF fin ne] .
  then have "filter (\<lambda>x. amount_parsed x = m) es \<noteq> []"
    by (auto simp: filter_empty_conv)
  then have "b \<in> set (filter (\<lambda>x. amount_parsed x = m) es)"
    unfolding b_def using last_in_set by blast
  then have b: "amount_parsed b = m" by simp
  have old: "newest_max es = Some b"
    unfolding newest_max_def b_def m_def using False by simp
  have "Max (set (map amount_parsed (es @ [e]))) = max (amount_parsed e) m"
    unfolding m_def using fin ne by simp
  then have new: "newest_max (es @ [e])
      = Some (last (filter (\<lambda>x. amount_parsed x = max (amount_parsed e) m) (es @ [e])))"
    unfolding newest_max_def by simp
  show ?thesis
  proof (cases "amount_parsed e \<ge> m")
    case True
    then have "max (amount_parsed e) m = amount_parsed e" by simp
    with new have "newest_max (es @ [e]) = Some e" by simp
    with old b True show ?thesis by simp
  next
    case lt: False
    then have "max (amount_parsed e) m = m" and "amount_parsed e \<noteq> m" by simp_all
    with new have "newest_max (es @ [e]) = Some b"
      unfolding b_def by simp
    with old b lt show ?thesis by simp
  qed
qed

lemma foldl_log_error: "foldl log_error None es = newest_max es"
proof (induction es rule: rev_induct)
  case Nil
  show ?case by (simp add: newest_max_def)
next
  case (snoc e es)
  then show ?case by (simp add: newest_max_snoc)
qed


lemma parse_statement_log:
  "parse_statement tokens index b
     = (fst (parse_statement tokens index None), foldl log_error b (statement_log tokens index))"
  by (simp add: parse_statement_def statement_log_def split: sum.splits exn.splits)

lemma main_loop_induct [case_names step]:
  assumes "\<And>tokens index nodes b.
     (\<And>node index' b1. parse_statement tokens index b = (Inr (node, index'), b1) \<Longrightarrow>
        P tokens index' (nodes @ [node]) b1) \<Longrightarrow>
     (\<And>e b1 node index'. parse_statement tokens index b = (Inl (ParserErr e), b1) \<Longrightarrow>
        parse_declaration tokens index = Inr (node, index') \<Longrightarrow>
        P tokens index' (nodes @ [node]) (log_error b1 e)) \<Longrightarrow>
     P tokens index nodes b"
  shows "P tokens index nodes b"
proof (induction tokens index nodes b rule: main_loop.induct)
  case (1 tokens index nodes best_error)
  show ?case
  proof (rule assms)
    fix node index' b1
    assume "parse_statement tokens index best_error = (Inr (node, index'), b1)"
    then show "P tokens index' (nodes @ [node]) b1"
      using "1.IH"(2) [of "Inr (node, index')" b1 "(node, index')" node index'] by simp
  next
    fix e b1 node index'
    assume "parse_statement tokens index best_error = (Inl (ParserErr e), b1)"
      and "parse_declaration tokens index = Inr (node, index')"
    then show "P tokens index' (nodes @ [node]) (log_error b1 e)"
      using "1.IH"(1) [of "Inl (ParserErr e)" b1 "ParserErr e" e "(node, index')" node index']
      by simp
  qed
qed

lemma log_error_Some: "\<exists>best. log_error b e = Some best"
  by (cases b) auto

lemma main_loop_log_slot:
  "snd (main_loop tokens index nodes b) = foldl log_error b (main_loop_log tokens index)"
proof (induction tokens index nodes b rule: main_loop_induct)
  case (step tokens index nodes b)
  obtain r where ps: "parse_statement tokens index b
      = (r, foldl log_error b (statement_log tokens index))"
    and r: "fst (parse_statement tokens index None) = r"
    using parse_statement_log [of tokens index b] by simp
  show ?case
  proof (cases r)
    case (Inr p)
    obtain node index' where p: "p = (node, index')" by (cases p)
    from step(1) [of node index'] ps r Inr p
    show ?thesis
      by (simp add: main_loop.simps [of tokens index] main_loop_log.simps [of tokens index])
  next
    case (Inl x)
    show ?thesis
    proof (cases x)
      case (ParserErr e)
      show ?thesis
      proof (cases "parse_declaration tokens index")
        case dr: (Inr p)
        obtain node index' where p: "p = (node, index')" by (cases p)
        from step(2) [of e _ node index'] ps r Inl ParserErr dr p
        show ?thesis
          by (simp add: main_loop.simps [of tokens index] main_loop_log.simps [of tokens index])
      next
        case dl: (Inl y)
        with ps r Inl ParserErr show ?thesis
          by (cases y)
             (simp_all add: main_loop.simps [of tokens index] main_loop_log.simps [of tokens index])
      qed
    qed (use ps r Inl in \<open>simp_all add: main_loop.simps [of tokens index]
           main_loop_log.simps [of tokens index]\<close>)
  qed
qed

lemma parse_main_log_slot:
  "snd (parse_main tokens index b) = foldl log_error b (parse_main_log tokens index)"
proof (cases "match_tokens tokens index kinds_before")
  case (Inl e)
  then show ?thesis
    by (cases e) (simp_all add: parse_main_def parse_main_log_def)
next
  case (Inr index1)
  have "snd (main_loop tokens index1 [] b) = foldl log_error b (main_loop_log tokens index1)"
    by (rule main_loop_log_slot)
  with Inr show ?thesis
    by (auto simp: parse_main_def parse_main_log_def split: prod.splits sum.splits exn.splits)
qed

text \<open>
  C4: every call of \<^verbatim>\<open>log_error\<close> keeps the slot at the best of the errors logged so far,
  one with the maximal \<open>amount_parsed\<close> and the newest of these; after \<^verbatim>\<open>parse_main\<close> the
  slot holds the best of the errors that \<^verbatim>\<open>parse_main\<close> has logged; and when \<^verbatim>\<open>parse_main\<close>
  fails with a \<^verbatim>\<open>ParserError\<close>, \<^verbatim>\<open>parse\<close> logs that error too and raises the best of all
  of them, which need not be the error of \<^verbatim>\<open>parse_main\<close>.
\<close>

theorem best_error_tracking:
  "log_error (newest_max es) e = newest_max (es @ [e])
   \<and> snd (parse_main tokens 0 None) = newest_max (parse_main_log tokens 0)
   \<and> (fst (parse_main tokens 0 None) = Inl (ParserErr e') \<longrightarrow>
        (\<exists>best. newest_max (parse_main_log tokens 0 @ [e']) = Some best
           \<and> parse tokens = Inl (ParserErr best)))"
proof (intro conjI impI)
  show "log_error (newest_max es) e = newest_max (es @ [e])"
    by (rule newest_max_snoc)
  show slot: "snd (parse_main tokens 0 None) = newest_max (parse_main_log tokens 0)"
    by (simp add: parse_main_log_slot foldl_log_error)
  assume f: "fst (parse_main tokens 0 None) = Inl (ParserErr e')"
  obtain best where b: "log_error (snd (parse_main tokens 0 None)) e' = Some best"
    using log_error_Some by blast
  have "log_error (snd (parse_main tokens 0 None)) e' = newest_max (parse_main_log tokens 0 @ [e'])"
    unfolding slot by (rule newest_max_snoc)
  with b have nm: "newest_max (parse_main_log tokens 0 @ [e']) = Some best"
    by simp
  from f b have "parse tokens = Inl (ParserErr best)"
    by (cases "parse_main tokens 0 None") (simp add: parse_def)
  with nm show "\<exists>best. newest_max (parse_main_log tokens 0 @ [e']) = Some best
           \<and> parse tokens = Inl (ParserErr best)"
    by blast
qed

theorem best_error_tracking_witness:
  "parse_main truncated_example 0 None
     = (Inl (ParserErr (ParserError ''expected closing brace'' 5 GOT)),
        Some (ParserError ''expected semicolon'' 7 AFTER))
   \<and> parse_main_log truncated_example 0
     = [ParserError ''expected semicolon'' 7 AFTER, ParserError ''expected expression'' 5 GOT,
        ParserError ''expected type name'' 5 GOT]
   \<and> parse truncated_example = Inl (ParserErr (ParserError ''expected semicolon'' 7 AFTER))"
proof -
  have m: "parse_main truncated_example 0 None
     = (Inl (ParserErr (ParserError ''expected closing brace'' 5 GOT)),
        Some (ParserError ''expected semicolon'' 7 AFTER))"
    by code_simp
  have l: "parse_main_log truncated_example 0
     = [ParserError ''expected semicolon'' 7 AFTER, ParserError ''expected expression'' 5 GOT,
        ParserError ''expected type name'' 5 GOT]"
    by code_simp
  have n: "newest_max ([ParserError ''expected semicolon'' 7 AFTER,
        ParserError ''expected expression'' 5 GOT, ParserError ''expected type name'' 5 GOT]
        @ [ParserError ''expected closing brace'' 5 GOT])
     = Some (ParserError ''expected semicolon'' 7 AFTER)"
    by (simp add: newest_max_def)
  from m have "fst (parse_main truncated_example 0 None)
      = Inl (ParserErr (ParserError ''expected closing brace'' 5 GOT))"
    by simp
  with best_error_tracking [of "[]" "ParserError ''expected closing brace'' 5 GOT"
      truncated_example "ParserError ''expected closing brace'' 5 GOT"]
  obtain best where
    nm: "newest_max (parse_main_log truncated_example 0
           @ [ParserError ''expected closing brace'' 5 GOT]) = Some best"
    and p: "parse truncated_example = Inl (ParserErr best)"
    by blast
  from nm have "best = ParserError ''expected semicolon'' 7 AFTER"
    unfolding l n by simp
  with p m l show ?thesis by simp
qed


subsection \<open>Termination in a bounded number of steps\<close>

text \<open>
  The two loops of the parser with a bound on the number of passes: \<open>None\<close> when the bound
  is used up before the loop has stopped.
\<close>

fun expr_loop_fuel ::
  "nat \<Rightarrow> token list \<Rightarrow> StackItem list \<Rightarrow> nat \<Rightarrow> (exn + StackItem list) option" where
  "expr_loop_fuel 0 tokens stack i = None"
| "expr_loop_fuel (Suc n) tokens stack i =
     (case expr_step tokens stack i of
        Continue stack' i' \<Rightarrow> expr_loop_fuel n tokens stack' i'
      | Break \<Rightarrow> Some (Inr stack)
      | Raise e \<Rightarrow> Some (Inl e))"

fun main_loop_fuel ::
  "nat \<Rightarrow> token list \<Rightarrow> nat \<Rightarrow> node list \<Rightarrow> parser_error option
     \<Rightarrow> ((exn + (node list \<times> nat)) \<times> parser_error option) option" where
  "main_loop_fuel 0 tokens index nodes best_error = None"
| "main_loop_fuel (Suc n) tokens index nodes best_error =
     (case parse_statement tokens index best_error of
        (Inr (node, index'), best1) \<Rightarrow> main_loop_fuel n tokens index' (nodes @ [node]) best1
      | (Inl (ParserErr e), best1) \<Rightarrow>
          (case parse_declaration tokens index of
             Inr (node, index') \<Rightarrow>
               main_loop_fuel n tokens index' (nodes @ [node]) (log_error best1 e)
           | Inl (ParserErr e') \<Rightarrow> Some (Inr (nodes, index), log_error (log_error best1 e) e')
           | Inl x \<Rightarrow> Some (Inl x, log_error best1 e))
      | (Inl x, best1) \<Rightarrow> Some (Inl x, best1))"

lemma expr_loop_fuel_enough:
  "loop_measure tokens stack i < n \<Longrightarrow>
     expr_loop_fuel n tokens stack i = Some (expr_loop tokens stack i)"
proof (induction n arbitrary: stack i)
  case 0
  then show ?case by simp
next
  case (Suc n)
  show ?case
  proof (cases "expr_step tokens stack i")
    case (Continue stack' i')
    from step_decreases [OF this] Suc.prems have "loop_measure tokens stack' i' < n"
      by simp
    from Suc.IH [OF this] Continue show ?thesis
      by (simp add: expr_loop.simps [of tokens stack i])
  next
    case Break
    then show ?thesis by (simp add: expr_loop.simps [of tokens stack i])
  next
    case (Raise e)
    then show ?thesis by (simp add: expr_loop.simps [of tokens stack i])
  qed
qed

lemma main_loop_fuel_enough:
  "length tokens - index < n \<Longrightarrow>
     main_loop_fuel n tokens index nodes b = Some (main_loop tokens index nodes b)"
proof (induction n arbitrary: index nodes b)
  case 0
  then show ?case by simp
next
  case (Suc n)
  obtain r b1 where ps: "parse_statement tokens index b = (r, b1)"
    by (cases "parse_statement tokens index b")
  show ?case
  proof (cases r)
    case (Inr p)
    obtain node index' where p: "p = (node, index')" by (cases p)
    from ps Inr p have "parse_statement tokens index b = (Inr (node, index'), b1)" by simp
    from parse_statement_Inr [OF this] Suc.prems have "length tokens - index' < n"
      by arith
    from Suc.IH [OF this] ps Inr p show ?thesis
      by (simp add: main_loop.simps [of tokens index])
  next
    case (Inl x)
    show ?thesis
    proof (cases x)
      case (ParserErr e)
      show ?thesis
      proof (cases "parse_declaration tokens index")
        case dr: (Inr p)
        obtain node index' where p: "p = (node, index')" by (cases p)
        from dr p have "parse_declaration tokens index = Inr (node, index')" by simp
        from parse_declaration_Inr [OF this] Suc.prems have "length tokens - index' < n"
          by arith
        from Suc.IH [OF this] ps Inl ParserErr dr p show ?thesis
          by (simp add: main_loop.simps [of tokens index])
      next
        case dl: (Inl y)
        with ps Inl ParserErr show ?thesis
          by (cases y) (simp_all add: main_loop.simps [of tokens index])
      qed
    qed (use ps Inl in \<open>simp_all add: main_loop.simps [of tokens index]\<close>)
  qed
qed

text \<open>
  C9: the shift-reduce loop of \<^verbatim>\<open>parse_expression\<close> stops, for every token list and every
  starting position, after at most \<open>3 * (len(tokens) - index) + 1\<close> passes, and the loop of
  \<^verbatim>\<open>parse_main\<close> after at most \<open>len(tokens) - index + 1\<close> passes, so that every call of
  \<^verbatim>\<open>parse\<close> ends. A pass of the shift-reduce loop that goes on either shifts, which moves
  the cursor one token on, or reduces, which leaves the cursor and makes the stack shorter
  or leaves its length and turns a raw number or identifier into a node.
\<close>

theorem parse_terminates:
  "expr_loop_fuel (3 * (length tokens - index) + 1) tokens [] index
     = Some (expr_loop tokens [] index)
   \<and> main_loop_fuel (length tokens - index + 1) tokens index nodes best
     = Some (main_loop tokens index nodes best)
   \<and> (expr_step tokens stack i = Continue stack' i' \<longrightarrow>
        loop_measure tokens stack' i' < loop_measure tokens stack i
        \<and> ((i' = Suc i \<and> i < length tokens)
            \<or> (i' = i \<and> (length stack' < length stack
                 \<or> (length stack' = length stack \<and> length (filter raw_item stack') < length (filter raw_item stack))))))"
proof (intro conjI impI)
  have "loop_measure tokens [] index < 3 * (length tokens - index) + 1"
    by (simp add: loop_measure_def)
  then show "expr_loop_fuel (3 * (length tokens - index) + 1) tokens [] index
     = Some (expr_loop tokens [] index)"
    by (rule expr_loop_fuel_enough)
  show "main_loop_fuel (length tokens - index + 1) tokens index nodes best
     = Some (main_loop tokens index nodes best)"
    by (rule main_loop_fuel_enough) simp
next
  assume s: "expr_step tokens stack i = Continue stack' i'"
  then show "loop_measure tokens stack' i' < loop_measure tokens stack i"
    by (rule step_decreases)
  from s show "(i' = Suc i \<and> i < length tokens)
            \<or> (i' = i \<and> (length stack' < length stack
                 \<or> (length stack' = length stack \<and> length (filter raw_item stack') < length (filter raw_item stack))))"
    by (cases rule: expr_step_cases) (auto simp: raw_item_def)
qed

theorem parse_terminates_witness:
  "expr_step [Token number ''4''] [] 0 = Continue [StackItem (Tok (Token number ''4'')) 1] 1
   \<and> loop_measure [Token number ''4''] [StackItem (Tok (Token number ''4'')) 1] 1 = 2
   \<and> loop_measure [Token number ''4''] [] 0 = 3
   \<and> expr_loop_fuel 4 [Token number ''4''] [] 0
       = Some (Inr [StackItem (Nd (NumberNode (Token number ''4''))) 1])"
proof -
  have s: "expr_step [Token number ''4''] [] 0 = Continue [StackItem (Tok (Token number ''4'')) 1] 1"
    by code_simp
  have l: "expr_loop [Token number ''4''] [] 0
      = Inr [StackItem (Nd (NumberNode (Token number ''4''))) 1]"
    by code_simp
  have m1: "loop_measure [Token number ''4''] [StackItem (Tok (Token number ''4'')) 1] 1 = 2"
    by (simp add: loop_measure_def raw_item_def)
  have m0: "loop_measure [Token number ''4''] [] 0 = 3"
    by (simp add: loop_measure_def)
  from parse_terminates [of "[Token number ''4'']" 0 "[]" None "[]" 0
      "[StackItem (Tok (Token number ''4'')) 1]" 1] s l m0 m1
  show ?thesis by simp
qed


subsection \<open>Progress of the productions\<close>

definition return_example :: "token list" where
  "return_example =
     [Token int_kw ''int'', Token main ''main'', Token open_paren ''('', Token close_paren '')'',
      Token open_brack ''{'', Token int_kw ''int'', Token identifier_kind ''x'',
      Token semicolon '';'', Token identifier_kind ''x'', Token equals ''='',
      Token number ''4'', Token semicolon '';'', Token return_kw ''return'',
      Token identifier_kind ''x'', Token semicolon '';'', Token close_brack ''}'']"

lemma main_loop_Inr:
  "main_loop tokens index nodes b = (Inr (ns, j), b') \<Longrightarrow> index \<le> j"
proof (induction tokens index nodes b rule: main_loop_induct)
  case (step tokens index nodes b)
  obtain r b1 where ps: "parse_statement tokens index b = (r, b1)"
    by (cases "parse_statement tokens index b")
  show ?case
  proof (cases r)
    case (Inr p)
    obtain node index' where p: "p = (node, index')" by (cases p)
    from ps Inr p have st: "parse_statement tokens index b = (Inr (node, index'), b1)" by simp
    from step.prems st have "main_loop tokens index' (nodes @ [node]) b1 = (Inr (ns, j), b')"
      by (simp add: main_loop.simps [of tokens index])
    from step.IH(1) [OF st this] parse_statement_Inr [OF st] show ?thesis by simp
  next
    case (Inl x)
    show ?thesis
    proof (cases x)
      case (ParserErr e)
      with ps Inl have st: "parse_statement tokens index b = (Inl (ParserErr e), b1)" by simp
      show ?thesis
      proof (cases "parse_declaration tokens index")
        case dr: (Inr p)
        obtain node index' where p: "p = (node, index')" by (cases p)
        with dr have d: "parse_declaration tokens index = Inr (node, index')" by simp
        from step.prems st d
        have "main_loop tokens index' (nodes @ [node]) (log_error b1 e) = (Inr (ns, j), b')"
          by (simp add: main_loop.simps [of tokens index])
        from step.IH(2) [OF st d this] parse_declaration_Inr [OF d] show ?thesis by simp
      next
        case dl: (Inl y)
        with step.prems st show ?thesis
          by (cases y) (simp_all add: main_loop.simps [of tokens index])
      qed
    qed (use step.prems ps Inl in \<open>simp_all add: main_loop.simps [of tokens index]\<close>)
  qed
qed

lemma parse_main_Inr:
  assumes "parse_main tokens index b = (Inr (n, j), b')"
  shows "index < j \<and> j \<le> length tokens"
proof -
  from assms obtain index1 where m: "match_tokens tokens index kinds_before = Inr index1"
    by (cases "match_tokens tokens index kinds_before")
       (auto simp: parse_main_def split: exn.splits)
  from match_tokens_Inr [OF this] have i1: "index1 = index + 5"
    by (simp add: kinds_before_def)
  obtain r b1 where ml: "main_loop tokens index1 [] b = (r, b1)"
    by (cases "main_loop tokens index1 [] b")
  with assms m obtain nodes index2 where r: "r = Inr (nodes, index2)"
    by (cases r) (auto simp: parse_main_def)
  with ml have "index1 \<le> index2" using main_loop_Inr by blast
  moreover from assms m ml r have "match_token tokens index2 close_brack = Inr j"
    by (auto simp: parse_main_def split: sum.splits exn.splits)
  from match_token_Inr [OF this] have "j = Suc index2 \<and> j \<le> length tokens" .
  ultimately show ?thesis using i1 by simp
qed

text \<open>
  C10: each of \<^verbatim>\<open>parse_main\<close>, \<^verbatim>\<open>parse_statement\<close>, \<^verbatim>\<open>parse_return\<close>,
  \<^verbatim>\<open>parse_expr_statement\<close>, \<^verbatim>\<open>parse_expression\<close> and \<^verbatim>\<open>parse_declaration\<close> that succeeds
  from a starting index returns an index that is greater than the starting index and at
  most the length of the token list.
\<close>

theorem productions_progress:
  "(parse_main tokens index b = (Inr (n, j), b') \<longrightarrow> index < j \<and> j \<le> length tokens)
   \<and> (parse_statement tokens index b = (Inr (n, j), b') \<longrightarrow> index < j \<and> j \<le> length tokens)
   \<and> (parse_return tokens index = Inr (n, j) \<longrightarrow> index < j \<and> j \<le> length tokens)
   \<and> (parse_expr_statement tokens index = Inr (n, j) \<longrightarrow> index < j \<and> j \<le> length tokens)
   \<and> (parse_expression tokens index = Inr (n, j) \<longrightarrow> index < j \<and> j \<le> length tokens)
   \<and> (parse_declaration tokens index = Inr (n, j) \<longrightarrow> index < j \<and> j \<le> length tokens)"
proof (intro conjI impI)
  assume "parse_main tokens index b = (Inr (n, j), b')"
  then show "index < j" "j \<le> length tokens" using parse_main_Inr by blast+
next
  assume "parse_statement tokens index b = (Inr (n, j), b')"
  then show "index < j" "j \<le> length tokens" using parse_statement_Inr by blast+
next
  assume "parse_return tokens index = Inr (n, j)"
  then show "index < j" "j \<le> length tokens" using parse_return_Inr by blast+
next
  assume "parse_expr_statement tokens index = Inr (n, j)"
  then show "index < j" "j \<le> length tokens" using parse_expr_statement_Inr by blast+
next
  assume "parse_expression tokens index = Inr (n, j)"
  then show "index < j" "j \<le> length tokens" using parse_expression_progress by blast+
next
  assume "parse_declaration tokens index = Inr (n, j)"
  then show "index < j" "j \<le> length tokens" using parse_declaration_Inr by blast+
qed


theorem productions_progress_witness:
  "fst (parse_main return_example 0 None)
     = Inr (MainNode [DeclarationNode (Token identifier_kind ''x''),
              ExprStatementNode (BinaryOperatorNode (IdentifierNode (Token identifier_kind ''x''))
                (Token equals ''='') (NumberNode (Token number ''4''))),
              ReturnNode (IdentifierNode (Token identifier_kind ''x''))], 16)
   \<and> fst (parse_statement return_example 8 None)
     = Inr (ExprStatementNode (BinaryOperatorNode (IdentifierNode (Token identifier_kind ''x''))
                (Token equals ''='') (NumberNode (Token number ''4''))), 12)
   \<and> parse_return return_example 12 = Inr (ReturnNode (IdentifierNode (Token identifier_kind ''x'')), 15)
   \<and> parse_expr_statement return_example 8
     = Inr (ExprStatementNode (BinaryOperatorNode (IdentifierNode (Token identifier_kind ''x''))
                (Token equals ''='') (NumberNode (Token number ''4''))), 12)
   \<and> parse_expression return_example 8
     = Inr (BinaryOperatorNode (IdentifierNode (Token identifier_kind ''x''))
                (Token equals ''='') (NumberNode (Token number ''4'')), 11)
   \<and> parse_declaration return_example 5 = Inr (DeclarationNode (Token identifier_kind ''x''), 8)
   \<and> length return_example = 16"
proof -
  let ?n2 = "ExprStatementNode (BinaryOperatorNode (IdentifierNode (Token identifier_kind ''x''))
                (Token equals ''='') (NumberNode (Token number ''4'')))"
  let ?n1 = "MainNode [DeclarationNode (Token identifier_kind ''x''), ?n2,
              ReturnNode (IdentifierNode (Token identifier_kind ''x''))]"
  have m: "parse_main return_example 0 None
      = (Inr (?n1, 16), Some (ParserError ''expected type name'' 15 GOT))"
    by code_simp
  have s: "parse_statement return_example 8 None
      = (Inr (?n2, 12), Some (ParserError ''expected return keyword'' 8 GOT))"
    by code_simp
  have r: "parse_return return_example 12
      = Inr (ReturnNode (IdentifierNode (Token identifier_kind ''x'')), 15)"
    by code_simp
  have x: "parse_expr_statement return_example 8
     = Inr (ExprStatementNode (BinaryOperatorNode (IdentifierNode (Token identifier_kind ''x''))
                (Token equals ''='') (NumberNode (Token number ''4''))), 12)"
    by code_simp
  have e: "parse_expression return_example 8
     = Inr (BinaryOperatorNode (IdentifierNode (Token identifier_kind ''x''))
                (Token equals ''='') (NumberNode (Token number ''4'')), 11)"
    by code_simp
  have d: "parse_declaration return_example 5
      = Inr (DeclarationNode (Token identifier_kind ''x''), 8)"
    by code_simp
  from productions_progress [of return_example 0 None ?n1 16] m
  have "16 \<le> length return_example" by simp
  moreover from productions_progress [of return_example 8 None ?n2 12] s
  have "(8::nat) < 12" by simp
  moreover from productions_progress [of return_example 12 _ _ 15] r
  have "(12::nat) < 15" by simp
  moreover from productions_progress [of return_example 8 _ _ 12] x
  have "(8::nat) < 12" by simp
  moreover from productions_progress [of return_example 8 _ _ 11] e
  have "(8::nat) < 11" by simp
  moreover from productions_progress [of return_example 5 _ _ 8] d
  have "(5::nat) < 8" by simp
  moreover have "length return_example = 16" by (simp add: return_example_def)
  ultimately show ?thesis using m s r x e d by simp
qed



subsection \<open>Runs of the shift-reduce loop on stacks of a known shape\<close>

text \<open>
  A number or an identifier is reduced to its node as soon as it is on top of the stack.
\<close>

definition is_atom :: "token \<Rightarrow> bool" where
  "is_atom t \<longleftrightarrow> kind t = number \<or> kind t = identifier_kind"

definition atom_node :: "token \<Rightarrow> node" where
  "atom_node t = (if kind t = number then NumberNode t else IdentifierNode t)"

lemma expr_loop_Continue:
  "expr_step tokens s i = Continue s' i' \<Longrightarrow> expr_loop tokens s i = expr_loop tokens s' i'"
  by (simp add: expr_loop.simps [of tokens s i])

lemma expr_loop_Break: "expr_step tokens s i = Break \<Longrightarrow> expr_loop tokens s i = Inr s"
  by (simp add: expr_loop.simps [of tokens s i])

lemma drop_Cons_nth:
  "drop i xs = y # ys \<Longrightarrow> i < length xs \<and> xs ! i = y \<and> drop (Suc i) xs = ys"
proof -
  assume d: "drop i xs = y # ys"
  then have l: "i < length xs"
    by (metis drop_all list.distinct(1) not_le)
  from Cons_nth_drop_Suc [OF l] d show ?thesis
    using l by simp
qed

lemma binary_operators_simps [simp]:
  "binary_operators plus_kind = Some 11" "binary_operators star = Some 12"
  "binary_operators equals = Some 1"
  "binary_operators number = None" "binary_operators identifier_kind = None"
  "binary_operators open_paren = None" "binary_operators close_paren = None"
  "binary_operators semicolon = None" "binary_operators int_kw = None"
  "binary_operators main = None" "binary_operators return_kw = None"
  "binary_operators open_brack = None" "binary_operators close_brack = None"
  by (simp_all add: binary_operators_def)

lemma binary_operators_cases:
  "binary_operators k \<noteq> None \<longleftrightarrow> k = plus_kind \<or> k = star \<or> k = equals"
  by (cases k) simp_all

lemma precedence_le: "binary_operators k \<noteq> None \<Longrightarrow> the (binary_operators k) \<le> 12"
  by (cases k) simp_all

lemma reduce_atom:
  "is_atom a \<Longrightarrow>
     expr_step tokens (StackItem (Tok a) l # r) i = Continue (StackItem (Nd (atom_node a)) 1 # r) i"
  by (auto simp: is_atom_def atom_node_def expr_step_def number_on_top_def identifier_on_top_def)

lemma top_token_simps [simp]:
  "number_on_top (StackItem (Tok x) l # r) \<longleftrightarrow> kind x = number"
  "identifier_on_top (StackItem (Tok x) l # r) \<longleftrightarrow> kind x = identifier_kind"
  "\<not> binary_operator_on_top tokens (StackItem (Tok x) l # r) i"
  "\<not> number_on_top (StackItem (Nd n) l # r)"
  "\<not> identifier_on_top (StackItem (Nd n) l # r)"
  "\<not> paren_expr_on_top (StackItem (Nd n) l # r)"
  "\<not> number_on_top []" "\<not> identifier_on_top []" "\<not> paren_expr_on_top []"
  "\<not> binary_operator_on_top tokens [] i"
  by (simp_all add: number_on_top_iff identifier_on_top_iff paren_expr_on_top_iff
        binary_operator_on_top_iff)

lemma paren_expr_on_top_token:
  "kind x \<noteq> close_paren \<Longrightarrow> \<not> paren_expr_on_top (StackItem (Tok x) l # r)"
  by (simp add: paren_expr_on_top_iff)

lemma binary_operator_on_top_three [simp]:
  "binary_operator_on_top tokens
     (StackItem (Nd nr) lr # StackItem (Tok t) lt # StackItem (Nd nl) ll # r) i \<longleftrightarrow>
   binary_operators (kind t) \<noteq> None
   \<and> \<not> (i < length tokens \<and> binary_operators (kind (tokens ! i)) \<noteq> None
         \<and> the (binary_operators (kind (tokens ! i))) > the (binary_operators (kind t)))
   \<and> \<not> (i < length tokens \<and> kind t = equals \<and> kind (tokens ! i) = equals)"
  by (simp add: binary_operator_on_top_iff)

lemma binary_operator_on_top_short [simp]:
  "\<not> binary_operator_on_top tokens [x] i"
  "\<not> binary_operator_on_top tokens [x, y] i"
  "\<not> binary_operator_on_top tokens (x # StackItem (Nd n) l # r) i"
  "\<not> binary_operator_on_top tokens (x # y # StackItem (Tok t) l # r) i"
  by (simp_all add: binary_operator_on_top_iff)

lemma shift_step:
  "\<not> number_on_top s \<Longrightarrow> \<not> identifier_on_top s \<Longrightarrow> \<not> paren_expr_on_top s \<Longrightarrow>
   \<not> binary_operator_on_top tokens s i \<Longrightarrow> i < length tokens \<Longrightarrow>
   \<not> never_in_expression (kind (tokens ! i)) \<Longrightarrow>
     expr_step tokens s i = Continue (StackItem (Tok (tokens ! i)) 1 # s) (Suc i)"
  by (simp add: expr_step_def)

lemma break_step:
  "\<not> number_on_top s \<Longrightarrow> \<not> identifier_on_top s \<Longrightarrow> \<not> paren_expr_on_top s \<Longrightarrow>
   \<not> binary_operator_on_top tokens s i \<Longrightarrow>
   i = length tokens \<or> (i < length tokens \<and> never_in_expression (kind (tokens ! i))) \<Longrightarrow>
     expr_step tokens s i = Break"
  by (auto simp: expr_step_def)

lemma reduce_binary:
  "binary_operator_on_top tokens
     (StackItem (Nd nr) lr # StackItem (Tok t) lt # StackItem (Nd nl) ll # r) i \<Longrightarrow>
   expr_step tokens (StackItem (Nd nr) lr # StackItem (Tok t) lt # StackItem (Nd nl) ll # r) i
     = Continue (StackItem (Nd (BinaryOperatorNode nl t nr)) (ll + lt + lr) # r) i"
  by (simp add: expr_step_def)

lemma reduce_paren:
  "kind tc = close_paren \<Longrightarrow> kind tp = open_paren \<Longrightarrow>
   expr_step tokens (StackItem (Tok tc) lc # StackItem (Nd n) ln # StackItem (Tok tp) lp # r) i
     = Continue (StackItem (Nd (ParenExprNode n)) (ln + 2) # r) i"
  by (simp add: expr_step_def paren_expr_on_top_iff)

text \<open>Shifting an atom onto a stack that expects an operand, and reducing it.\<close>

definition wants_operand :: "StackItem list \<Rightarrow> bool" where
  "wants_operand s \<longleftrightarrow>
     (case s of [] \<Rightarrow> True
      | x # r \<Rightarrow> is_token x \<and> (kind (the_token x) = open_paren
                    \<or> binary_operators (kind (the_token x)) \<noteq> None))"

lemma wants_operand_no_rule:
  assumes "wants_operand s"
  shows "\<not> number_on_top s" "\<not> identifier_on_top s" "\<not> paren_expr_on_top s"
    "\<not> binary_operator_on_top tokens s i"
proof -
  show "\<not> number_on_top s" "\<not> identifier_on_top s" "\<not> paren_expr_on_top s"
    "\<not> binary_operator_on_top tokens s i"
    using assms
    by (cases s; cases "hd s" rule: item_cases;
        auto simp: wants_operand_def paren_expr_on_top_iff)+
qed

lemma shift_atom:
  assumes "wants_operand s" and "drop i tokens = a # rest" and "is_atom a"
  shows "expr_loop tokens s i = expr_loop tokens (StackItem (Nd (atom_node a)) 1 # s) (Suc i)"
proof -
  from drop_Cons_nth [OF assms(2)] have i: "i < length tokens" and a: "tokens ! i = a"
    by simp_all
  from assms(3) a have "\<not> never_in_expression (kind (tokens ! i))"
    by (auto simp: never_in_expression_def is_atom_def)
  from shift_step [OF wants_operand_no_rule [OF assms(1)] i this] a
  have "expr_loop tokens s i = expr_loop tokens (StackItem (Tok a) 1 # s) (Suc i)"
    by (simp add: expr_loop_Continue)
  also have "\<dots> = expr_loop tokens (StackItem (Nd (atom_node a)) 1 # s) (Suc i)"
    by (rule expr_loop_Continue) (rule reduce_atom [OF assms(3)])
  finally show ?thesis .
qed


lemma drop_append_length:
  "drop i xs = ys @ zs \<Longrightarrow> i \<le> length xs \<Longrightarrow>
     i + length ys \<le> length xs \<and> drop (i + length ys) xs = zs"
proof -
  assume d: "drop i xs = ys @ zs" and i: "i \<le> length xs"
  have "length (drop i xs) = length ys + length zs" using d by simp
  then have "i + length ys \<le> length xs" using i by simp
  moreover have "drop (i + length ys) xs = drop (length ys) (drop i xs)"
    by (simp add: add.commute)
  ultimately show ?thesis using d by simp
qed


subsection \<open>Precedence and associativity of \<^verbatim>\<open>+\<close> and \<^verbatim>\<open>*\<close>\<close>

text \<open>
  An expression over numbers and identifiers with the operators \<^verbatim>\<open>+\<close> and \<^verbatim>\<open>*\<close> only is
  a product followed by pairs of a plus sign and a product, where a product is a number or
  an identifier followed by pairs of a star and a number or identifier. The tree that
  precedence and left associativity ask for folds each product from the left over its
  stars, and then the products from the left over the plus signs.
\<close>

type_synonym product = "token \<times> (token \<times> token) list"
type_synonym sum_expr = "product \<times> (token \<times> product) list"

definition product_tokens :: "product \<Rightarrow> token list" where
  "product_tokens p = fst p # concat (map (\<lambda>(s, a). [s, a]) (snd p))"

definition product_tree :: "product \<Rightarrow> node" where
  "product_tree p =
     foldl (\<lambda>l (s, a). BinaryOperatorNode l s (atom_node a)) (atom_node (fst p)) (snd p)"

definition product_ok :: "product \<Rightarrow> bool" where
  "product_ok p \<longleftrightarrow> is_atom (fst p) \<and> list_all (\<lambda>(s, a). kind s = star \<and> is_atom a) (snd p)"

definition sum_tokens :: "sum_expr \<Rightarrow> token list" where
  "sum_tokens e =
     product_tokens (fst e) @ concat (map (\<lambda>(pl, p). pl # product_tokens p) (snd e))"

definition sum_tree :: "sum_expr \<Rightarrow> node" where
  "sum_tree e =
     foldl (\<lambda>l (pl, p). BinaryOperatorNode l pl (product_tree p)) (product_tree (fst e)) (snd e)"

definition sum_ok :: "sum_expr \<Rightarrow> bool" where
  "sum_ok e \<longleftrightarrow>
     product_ok (fst e) \<and> list_all (\<lambda>(pl, p). kind pl = plus_kind \<and> product_ok p) (snd e)"

lemma product_run:
  assumes "list_all (\<lambda>(s, a). kind s = star \<and> is_atom a) xs"
    and "drop i tokens = concat (map (\<lambda>(s, a). [s, a]) xs) @ rest"
    and "B = [] \<or> (\<exists>pl S m. B = [StackItem (Tok pl) 1, StackItem (Nd S) m] \<and> kind pl = plus_kind)"
  shows "expr_loop tokens (StackItem (Nd P) n # B) i
     = expr_loop tokens
         (StackItem (Nd (foldl (\<lambda>l (s, a). BinaryOperatorNode l s (atom_node a)) P xs))
            (n + 2 * length xs) # B)
         (i + 2 * length xs)"
  using assms(1,2)
proof (induction xs arbitrary: P n i)
  case Nil
  show ?case by simp
next
  case (Cons x xs)
  obtain s a where x: "x = (s, a)" by (cases x)
  from Cons.prems(1) x have s: "kind s = star" and a: "is_atom a"
    and xs: "list_all (\<lambda>(s, a). kind s = star \<and> is_atom a) xs"
    by simp_all
  from Cons.prems(2) x
  have d0: "drop i tokens = s # a # concat (map (\<lambda>(s, a). [s, a]) xs) @ rest"
    by simp
  from drop_Cons_nth [OF d0] have i: "i < length tokens" and ti: "tokens ! i = s"
    and d1: "drop (Suc i) tokens = a # concat (map (\<lambda>(s, a). [s, a]) xs) @ rest"
    by simp_all
  from drop_Cons_nth [OF d1]
  have d2: "drop (Suc (Suc i)) tokens = concat (map (\<lambda>(s, a). [s, a]) xs) @ rest"
    by simp
  have nb: "\<not> binary_operator_on_top tokens (StackItem (Nd P) n # B) i"
    using assms(3) i ti s by auto
  have "expr_step tokens (StackItem (Nd P) n # B) i
      = Continue (StackItem (Tok (tokens ! i)) 1 # StackItem (Nd P) n # B) (Suc i)"
    using i ti s nb by (intro shift_step) (simp_all add: never_in_expression_def)
  then have "expr_loop tokens (StackItem (Nd P) n # B) i
      = expr_loop tokens (StackItem (Tok s) 1 # StackItem (Nd P) n # B) (Suc i)"
    using ti by (simp add: expr_loop_Continue)
  also have "\<dots> = expr_loop tokens
      (StackItem (Nd (atom_node a)) 1 # StackItem (Tok s) 1 # StackItem (Nd P) n # B) (Suc (Suc i))"
    using s by (intro shift_atom [OF _ d1 a]) (simp add: wants_operand_def)
  also have "\<dots> = expr_loop tokens
      (StackItem (Nd (BinaryOperatorNode P s (atom_node a))) (n + 1 + 1) # B) (Suc (Suc i))"
    using s precedence_le [of "kind (tokens ! Suc (Suc i))"]
    by (intro expr_loop_Continue reduce_binary) auto
  also have "\<dots> = expr_loop tokens
      (StackItem (Nd (foldl (\<lambda>l (s, a). BinaryOperatorNode l s (atom_node a))
                       (BinaryOperatorNode P s (atom_node a)) xs))
         (n + 1 + 1 + 2 * length xs) # B)
      (Suc (Suc i) + 2 * length xs)"
    by (rule Cons.IH [OF xs d2])
  finally show ?case using x by simp
qed


lemma length_product_tokens: "length (product_tokens p) = 1 + 2 * length (snd p)"
  by (simp add: product_tokens_def length_concat o_def split_def sum_list_triv)

lemma product_parse:
  assumes "product_ok p" and "wants_operand B"
    and "drop i tokens = product_tokens p @ rest"
    and "B = [] \<or> (\<exists>pl S m. B = [StackItem (Tok pl) 1, StackItem (Nd S) m] \<and> kind pl = plus_kind)"
  shows "expr_loop tokens B i
     = expr_loop tokens (StackItem (Nd (product_tree p)) (length (product_tokens p)) # B)
         (i + length (product_tokens p))"
proof -
  obtain a xs where p: "p = (a, xs)" by (cases p)
  from assms(1) p have a: "is_atom a" and xs: "list_all (\<lambda>(s, a). kind s = star \<and> is_atom a) xs"
    by (simp_all add: product_ok_def)
  from assms(3) p have d0: "drop i tokens = a # concat (map (\<lambda>(s, a). [s, a]) xs) @ rest"
    by (simp add: product_tokens_def)
  from drop_Cons_nth [OF d0]
  have d1: "drop (Suc i) tokens = concat (map (\<lambda>(s, a). [s, a]) xs) @ rest"
    by simp
  have "expr_loop tokens B i = expr_loop tokens (StackItem (Nd (atom_node a)) 1 # B) (Suc i)"
    by (rule shift_atom [OF assms(2) d0 a])
  also have "\<dots> = expr_loop tokens
      (StackItem (Nd (foldl (\<lambda>l (s, a). BinaryOperatorNode l s (atom_node a)) (atom_node a) xs))
         (1 + 2 * length xs) # B)
      (Suc i + 2 * length xs)"
    by (rule product_run [OF xs d1 assms(4)])
  finally show ?thesis using p
    by (simp add: product_tree_def length_product_tokens)
qed

lemma sum_run:
  assumes "list_all (\<lambda>(pl, p). kind pl = plus_kind \<and> product_ok p) ps"
    and "drop i tokens = concat (map (\<lambda>(pl, p). pl # product_tokens p) ps) @ rest"
    and "i \<le> length tokens"
    and "rest = [] \<or> never_in_expression (kind (hd rest))"
  shows "expr_loop tokens [StackItem (Nd S) m] i
     = Inr [StackItem (Nd (foldl (\<lambda>l (pl, p). BinaryOperatorNode l pl (product_tree p)) S ps))
              (m + length (concat (map (\<lambda>(pl, p). pl # product_tokens p) ps)))]"
  using assms(1,2,3)
proof (induction ps arbitrary: S m i)
  case Nil
  then have d: "drop i tokens = rest" by simp
  have "i = length tokens \<or> (i < length tokens \<and> never_in_expression (kind (tokens ! i)))"
  proof (cases rest)
    case Nil
    with d Nil.prems(3) show ?thesis by simp
  next
    case (Cons x xs)
    with d assms(4) drop_Cons_nth [of i tokens x xs] show ?thesis by simp
  qed
  then have "expr_step tokens [StackItem (Nd S) m] i = Break"
    by (intro break_step) simp_all
  then show ?case by (simp add: expr_loop_Break)
next
  case (Cons x ps)
  obtain pl p where x: "x = (pl, p)" by (cases x)
  from Cons.prems(1) x have pl: "kind pl = plus_kind" and p: "product_ok p"
    and ps: "list_all (\<lambda>(pl, p). kind pl = plus_kind \<and> product_ok p) ps"
    by simp_all
  let ?tl = "concat (map (\<lambda>(pl, p). pl # product_tokens p) ps) @ rest"
  from Cons.prems(2) x have d0: "drop i tokens = pl # product_tokens p @ ?tl"
    by simp
  from drop_Cons_nth [OF d0] have i: "i < length tokens" and ti: "tokens ! i = pl"
    and d1: "drop (Suc i) tokens = product_tokens p @ ?tl"
    by simp_all
  from drop_append_length [OF d1] i
  have i2: "Suc i + length (product_tokens p) \<le> length tokens"
    and d2: "drop (Suc i + length (product_tokens p)) tokens = ?tl"
    by simp_all
  let ?j = "Suc i + length (product_tokens p)"
  have "expr_step tokens [StackItem (Nd S) m] i
      = Continue [StackItem (Tok (tokens ! i)) 1, StackItem (Nd S) m] (Suc i)"
    using i ti pl by (intro shift_step) (simp_all add: never_in_expression_def)
  then have "expr_loop tokens [StackItem (Nd S) m] i
      = expr_loop tokens [StackItem (Tok pl) 1, StackItem (Nd S) m] (Suc i)"
    using ti by (simp add: expr_loop_Continue)
  also have "\<dots> = expr_loop tokens
      [StackItem (Nd (product_tree p)) (length (product_tokens p)), StackItem (Tok pl) 1,
       StackItem (Nd S) m] ?j"
    using pl by (intro product_parse [OF p _ d1]) (simp_all add: wants_operand_def)
  also have "\<dots> = expr_loop tokens
      [StackItem (Nd (BinaryOperatorNode S pl (product_tree p)))
         (m + 1 + length (product_tokens p))] ?j"
  proof (intro expr_loop_Continue reduce_binary)
    have "\<not> (?j < length tokens \<and> binary_operators (kind (tokens ! ?j)) \<noteq> None
            \<and> the (binary_operators (kind (tokens ! ?j))) > 11)"
    proof (cases ps)
      case Nil
      show ?thesis
      proof (cases rest)
        case r: Nil
        with Nil d2 show ?thesis by simp
      next
        case r: (Cons y ys)
        with Nil d2 assms(4) drop_Cons_nth [of ?j tokens y ys] show ?thesis
          by (simp add: never_in_expression_def)
      qed
    next
      case c: (Cons y ys)
      obtain pl' p' where y: "y = (pl', p')" by (cases y)
      with c ps have "kind pl' = plus_kind" by simp
      moreover from c y d2 have "drop ?j tokens
          = pl' # product_tokens p' @ concat (map (\<lambda>(pl, p). pl # product_tokens p) ys) @ rest"
        by simp
      from drop_Cons_nth [OF this] have "tokens ! ?j = pl'" by simp
      ultimately show ?thesis by simp
    qed
    with pl show "binary_operator_on_top tokens
        [StackItem (Nd (product_tree p)) (length (product_tokens p)), StackItem (Tok pl) 1,
         StackItem (Nd S) m] ?j"
      by simp
  qed
  also have "\<dots> = Inr [StackItem (Nd (foldl (\<lambda>l (pl, p). BinaryOperatorNode l pl (product_tree p))
                         (BinaryOperatorNode S pl (product_tree p)) ps))
              (m + 1 + length (product_tokens p)
                 + length (concat (map (\<lambda>(pl, p). pl # product_tokens p) ps)))]"
    by (rule Cons.IH [OF ps d2 i2])
  finally show ?case using x by simp
qed

text \<open>
  C1: for every expression over identifiers and numbers with the operators \<^verbatim>\<open>+\<close> and \<^verbatim>\<open>*\<close>
  only, ending at the end of the token list or in front of a token that can never appear
  in an expression, \<^verbatim>\<open>parse_expression\<close> returns the tree in which multiplication binds
  tighter than addition and chains of one operator are folded from the left, and the
  position behind the expression. In particular \<^verbatim>\<open>a + b * c\<close> gives
  \<open>BinaryOperator(+, a, BinaryOperator(*, b, c))\<close>, \<^verbatim>\<open>a * b + c\<close> gives
  \<open>BinaryOperator(+, BinaryOperator(*, a, b), c)\<close> and \<^verbatim>\<open>a + b + c\<close> gives
  \<open>BinaryOperator(+, BinaryOperator(+, a, b), c)\<close>.
\<close>

theorem plus_star_precedence:
  assumes "sum_ok e" and "rest = [] \<or> never_in_expression (kind (hd rest))"
  shows "parse_expression (pre @ sum_tokens e @ rest) (length pre)
     = Inr (sum_tree e, length pre + length (sum_tokens e))"
proof -
  let ?t = "pre @ sum_tokens e @ rest"
  obtain p ps where e: "e = (p, ps)" by (cases e)
  let ?tl = "concat (map (\<lambda>(pl, p). pl # product_tokens p) ps)"
  from assms(1) e have p: "product_ok p"
    and ps: "list_all (\<lambda>(pl, p). kind pl = plus_kind \<and> product_ok p) ps"
    by (simp_all add: sum_ok_def)
  have d0: "drop (length pre) ?t = product_tokens p @ ?tl @ rest"
    using e by (simp add: sum_tokens_def)
  from drop_append_length [OF d0]
  have i1: "length pre + length (product_tokens p) \<le> length ?t"
    and d1: "drop (length pre + length (product_tokens p)) ?t = ?tl @ rest"
    by simp_all
  have "expr_loop ?t [] (length pre)
      = expr_loop ?t [StackItem (Nd (product_tree p)) (length (product_tokens p))]
          (length pre + length (product_tokens p))"
    by (rule product_parse [OF p _ d0]) (simp_all add: wants_operand_def)
  also have "\<dots> = Inr [StackItem (Nd (foldl (\<lambda>l (pl, p). BinaryOperatorNode l pl (product_tree p))
                         (product_tree p) ps))
              (length (product_tokens p) + length ?tl)]"
    by (rule sum_run [OF ps d1 i1 assms(2)])
  finally show ?thesis using e
    by (simp add: parse_expression_def sum_tree_def sum_tokens_def)
qed


theorem plus_star_precedence_witness:
  "parse_expression [Token identifier_kind ''a'', Token plus_kind ''+'', Token identifier_kind ''b'',
      Token star ''*'', Token identifier_kind ''c''] 0
     = Inr (BinaryOperatorNode (IdentifierNode (Token identifier_kind ''a'')) (Token plus_kind ''+'')
             (BinaryOperatorNode (IdentifierNode (Token identifier_kind ''b'')) (Token star ''*'')
                (IdentifierNode (Token identifier_kind ''c''))), 5)
   \<and> parse_expression [Token identifier_kind ''a'', Token star ''*'', Token identifier_kind ''b'',
      Token plus_kind ''+'', Token identifier_kind ''c''] 0
     = Inr (BinaryOperatorNode
             (BinaryOperatorNode (IdentifierNode (Token identifier_kind ''a'')) (Token star ''*'')
                (IdentifierNode (Token identifier_kind ''b'')))
             (Token plus_kind ''+'') (IdentifierNode (Token identifier_kind ''c'')), 5)
   \<and> parse_expression [Token identifier_kind ''a'', Token plus_kind ''+'', Token identifier_kind ''b'',
      Token plus_kind ''+'', Token identifier_kind ''c'', Token semicolon '';''] 0
     = Inr (BinaryOperatorNode
             (BinaryOperatorNode (IdentifierNode (Token identifier_kind ''a'')) (Token plus_kind ''+'')
                (IdentifierNode (Token identifier_kind ''b'')))
             (Token plus_kind ''+'') (IdentifierNode (Token identifier_kind ''c'')), 5)"
  using plus_star_precedence [of
      "((Token identifier_kind ''a'', []),
        [(Token plus_kind ''+'', (Token identifier_kind ''b'',
            [(Token star ''*'', Token identifier_kind ''c'')]))])" "[]" "[]"]
    plus_star_precedence [of
      "((Token identifier_kind ''a'', [(Token star ''*'', Token identifier_kind ''b'')]),
        [(Token plus_kind ''+'', (Token identifier_kind ''c'', []))])" "[]" "[]"]
    plus_star_precedence [of
      "((Token identifier_kind ''a'', []),
        [(Token plus_kind ''+'', (Token identifier_kind ''b'', [])),
         (Token plus_kind ''+'', (Token identifier_kind ''c'', []))])"
      "[Token semicolon '';'']" "[]"]
  by (simp add: sum_ok_def product_ok_def is_atom_def sum_tokens_def product_tokens_def
        sum_tree_def product_tree_def atom_node_def never_in_expression_def)

subsection \<open>Assignment is right-associative\<close>

text \<open>
  A chain of identifiers joined by \<^verbatim>\<open>=\<close> is an identifier followed by pairs of an equals
  sign and an identifier; grouping from the right makes the first identifier the left
  operand of the first equals sign, and the tree of the rest of the chain its right
  operand. While the chain is read, the stack holds the identifiers read so far, each
  below its equals sign.
\<close>

definition assign_tokens :: "token \<Rightarrow> (token \<times> token) list \<Rightarrow> token list" where
  "assign_tokens a xs = a # concat (map (\<lambda>(e, b). [e, b]) xs)"

fun assign_tree :: "token \<Rightarrow> (token \<times> token) list \<Rightarrow> node" where
  "assign_tree a [] = IdentifierNode a"
| "assign_tree a ((e, b) # xs) = BinaryOperatorNode (IdentifierNode a) e (assign_tree b xs)"

definition assign_ok :: "token \<Rightarrow> (token \<times> token) list \<Rightarrow> bool" where
  "assign_ok a xs \<longleftrightarrow>
     kind a = identifier_kind
     \<and> list_all (\<lambda>(e, b). kind e = equals \<and> kind b = identifier_kind) xs"

definition pending :: "(token \<times> token) list \<Rightarrow> StackItem list" where
  "pending ys =
     concat (map (\<lambda>(e, a). [StackItem (Tok e) 1, StackItem (Nd (IdentifierNode a)) 1]) ys)"

lemma assign_unwind:
  assumes "i = length tokens \<or> (i < length tokens \<and> never_in_expression (kind (tokens ! i)))"
    and "list_all (\<lambda>(e, a). kind e = equals) ys"
  shows "expr_loop tokens (StackItem (Nd R) n # pending ys) i
     = Inr [StackItem (Nd (foldl (\<lambda>r (e, a). BinaryOperatorNode (IdentifierNode a) e r) R ys))
              (n + 2 * length ys)]"
  using assms(2)
proof (induction ys arbitrary: R n)
  case Nil
  have "expr_step tokens [StackItem (Nd R) n] i = Break"
    using assms(1) by (intro break_step) simp_all
  then show ?case by (simp add: expr_loop_Break pending_def)
next
  case (Cons y ys)
  obtain e a where y: "y = (e, a)" by (cases y)
  from Cons.prems y have e: "kind e = equals" and ys: "list_all (\<lambda>(e, a). kind e = equals) ys"
    by simp_all
  have pend: "pending (y # ys)
      = StackItem (Tok e) 1 # StackItem (Nd (IdentifierNode a)) 1 # pending ys"
    by (simp add: y pending_def)
  have "expr_step tokens
      (StackItem (Nd R) n # StackItem (Tok e) 1 # StackItem (Nd (IdentifierNode a)) 1 # pending ys) i
      = Continue
          (StackItem (Nd (BinaryOperatorNode (IdentifierNode a) e R)) (1 + 1 + n) # pending ys) i"
    using e assms(1) by (intro reduce_binary) (auto simp: never_in_expression_def)
  then have "expr_loop tokens (StackItem (Nd R) n # pending (y # ys)) i
      = expr_loop tokens
          (StackItem (Nd (BinaryOperatorNode (IdentifierNode a) e R)) (1 + 1 + n) # pending ys) i"
    unfolding pend by (rule expr_loop_Continue)
  also have "\<dots> = Inr [StackItem (Nd (foldl (\<lambda>r (e, a). BinaryOperatorNode (IdentifierNode a) e r)
                           (BinaryOperatorNode (IdentifierNode a) e R) ys))
              (1 + 1 + n + 2 * length ys)]"
    by (rule Cons.IH [OF ys])
  finally show ?case using y by simp
qed

lemma assign_push:
  assumes "rest = [] \<or> never_in_expression (kind (hd rest))"
  shows "list_all (\<lambda>(e, b). kind e = equals \<and> kind b = identifier_kind) xs \<Longrightarrow>
     list_all (\<lambda>(e, a). kind e = equals) ys \<Longrightarrow>
     drop i tokens = concat (map (\<lambda>(e, b). [e, b]) xs) @ rest \<Longrightarrow> i \<le> length tokens \<Longrightarrow>
     expr_loop tokens (StackItem (Nd (IdentifierNode a)) 1 # pending ys) i
       = Inr [StackItem (Nd (foldl (\<lambda>r (e, a). BinaryOperatorNode (IdentifierNode a) e r)
                               (assign_tree a xs) ys))
                (1 + 2 * length xs + 2 * length ys)]"
proof (induction xs arbitrary: a ys i)
  case Nil
  then have d: "drop i tokens = rest" by simp
  have "i = length tokens \<or> (i < length tokens \<and> never_in_expression (kind (tokens ! i)))"
  proof (cases rest)
    case Nil
    with d \<open>i \<le> length tokens\<close> show ?thesis by simp
  next
    case (Cons x xs)
    with d assms drop_Cons_nth [of i tokens x xs] show ?thesis by simp
  qed
  from assign_unwind [OF this Nil.prems(2)] show ?case by simp
next
  case (Cons x xs)
  obtain e b where x: "x = (e, b)" by (cases x)
  from Cons.prems(1) x have e: "kind e = equals" and b: "kind b = identifier_kind"
    and xs: "list_all (\<lambda>(e, b). kind e = equals \<and> kind b = identifier_kind) xs"
    by simp_all
  from Cons.prems(3) x
  have d0: "drop i tokens = e # b # concat (map (\<lambda>(e, b). [e, b]) xs) @ rest"
    by simp
  from drop_Cons_nth [OF d0] have i: "i < length tokens" and ti: "tokens ! i = e"
    and d1: "drop (Suc i) tokens = b # concat (map (\<lambda>(e, b). [e, b]) xs) @ rest"
    by simp_all
  from drop_Cons_nth [OF d1]
  have i1: "Suc i < length tokens"
    and d2: "drop (Suc (Suc i)) tokens = concat (map (\<lambda>(e, b). [e, b]) xs) @ rest"
    by simp_all
  have nb: "\<not> binary_operator_on_top tokens (StackItem (Nd (IdentifierNode a)) 1 # pending ys) i"
  proof (cases ys)
    case Nil
    then show ?thesis by (simp add: pending_def)
  next
    case (Cons y ys')
    obtain e0 a0 where "y = (e0, a0)" by (cases y)
    with Cons Cons.prems(2) i ti e show ?thesis by (simp add: pending_def)
  qed
  have "expr_step tokens (StackItem (Nd (IdentifierNode a)) 1 # pending ys) i
      = Continue (StackItem (Tok (tokens ! i)) 1 # StackItem (Nd (IdentifierNode a)) 1 # pending ys)
          (Suc i)"
    using i ti e nb by (intro shift_step) (simp_all add: never_in_expression_def)
  then have "expr_loop tokens (StackItem (Nd (IdentifierNode a)) 1 # pending ys) i
      = expr_loop tokens (StackItem (Tok e) 1 # StackItem (Nd (IdentifierNode a)) 1 # pending ys)
          (Suc i)"
    using ti by (simp add: expr_loop_Continue)
  also have "\<dots> = expr_loop tokens
      (StackItem (Nd (atom_node b)) 1 # StackItem (Tok e) 1 # StackItem (Nd (IdentifierNode a)) 1
         # pending ys) (Suc (Suc i))"
    using e b by (intro shift_atom [OF _ d1]) (simp_all add: wants_operand_def is_atom_def)
  also have "\<dots> = expr_loop tokens
      (StackItem (Nd (IdentifierNode b)) 1 # pending ((e, a) # ys)) (Suc (Suc i))"
    using b by (simp add: atom_node_def pending_def)
  also have "\<dots> = Inr [StackItem (Nd (foldl (\<lambda>r (e, a). BinaryOperatorNode (IdentifierNode a) e r)
                               (assign_tree b xs) ((e, a) # ys)))
                (1 + 2 * length xs + 2 * length ((e, a) # ys))]"
    using xs Cons.prems(2) e d2 i1 by (intro Cons.IH) simp_all
  finally show ?case using x by simp
qed

text \<open>
  C2: for every chain of identifiers joined by \<^verbatim>\<open>=\<close>, ending at the end of the token list
  or in front of a token that can never appear in an expression, \<^verbatim>\<open>parse_expression\<close>
  returns the tree grouped from the right and the position behind the chain. In
  particular \<^verbatim>\<open>a = b = c\<close> gives \<open>BinaryOperator(=, a, BinaryOperator(=, b, c))\<close>.
\<close>

theorem assignment_right_associative:
  assumes "assign_ok a xs" and "rest = [] \<or> never_in_expression (kind (hd rest))"
  shows "parse_expression (pre @ assign_tokens a xs @ rest) (length pre)
     = Inr (assign_tree a xs, length pre + length (assign_tokens a xs))"
proof -
  let ?t = "pre @ assign_tokens a xs @ rest"
  from assms(1) have a: "kind a = identifier_kind"
    and xs: "list_all (\<lambda>(e, b). kind e = equals \<and> kind b = identifier_kind) xs"
    by (simp_all add: assign_ok_def)
  have d0: "drop (length pre) ?t = a # concat (map (\<lambda>(e, b). [e, b]) xs) @ rest"
    by (simp add: assign_tokens_def)
  from drop_Cons_nth [OF d0]
  have lt: "length pre < length ?t"
    and d1: "drop (Suc (length pre)) ?t = concat (map (\<lambda>(e, b). [e, b]) xs) @ rest"
    by blast+
  have i1: "Suc (length pre) \<le> length ?t"
    by (simp add: assign_tokens_def)
  have "expr_loop ?t [] (length pre)
      = expr_loop ?t [StackItem (Nd (atom_node a)) 1] (Suc (length pre))"
    using a by (intro shift_atom [OF _ d0]) (simp_all add: wants_operand_def is_atom_def)
  also have "\<dots> = expr_loop ?t (StackItem (Nd (IdentifierNode a)) 1 # pending [])
      (Suc (length pre))"
    using a by (simp add: atom_node_def pending_def)
  also have "\<dots> = Inr [StackItem (Nd (foldl (\<lambda>r (e, a). BinaryOperatorNode (IdentifierNode a) e r)
                               (assign_tree a xs) []))
                (1 + 2 * length xs + 2 * length ([] :: (token \<times> token) list))]"
    by (rule assign_push [OF assms(2) xs _ d1 i1]) simp
  finally show ?thesis
    by (simp add: parse_expression_def assign_tokens_def length_concat o_def split_def
          sum_list_triv)
qed

theorem assignment_right_associative_witness:
  "parse_expression [Token identifier_kind ''a'', Token equals ''='', Token identifier_kind ''b'',
      Token equals ''='', Token identifier_kind ''c''] 0
     = Inr (BinaryOperatorNode (IdentifierNode (Token identifier_kind ''a'')) (Token equals ''='')
             (BinaryOperatorNode (IdentifierNode (Token identifier_kind ''b'')) (Token equals ''='')
                (IdentifierNode (Token identifier_kind ''c''))), 5)"
  using assignment_right_associative [of "Token identifier_kind ''a''"
      "[(Token equals ''='', Token identifier_kind ''b''),
        (Token equals ''='', Token identifier_kind ''c'')]" "[]" "[]"]
  by (simp add: assign_ok_def assign_tokens_def)


subsection \<open>The leaf tokens of the tree of a valid program\<close>

text \<open>
  The tokens that a tree holds, from left to right. \<^verbatim>\<open>MainNode\<close>, \<^verbatim>\<open>ReturnNode\<close>,
  \<^verbatim>\<open>ExprStatementNode\<close> and \<^verbatim>\<open>ParenExprNode\<close> are built from nodes only, so the keywords,
  the parentheses, the braces and the semicolons of the input are in no tree. The tokens
  that the parser does store in a tree are the numbers, the identifiers and the binary
  operators.
\<close>

fun leaf_tokens :: "node \<Rightarrow> token list" where
  "leaf_tokens (MainNode ns) = concat (map leaf_tokens ns)"
| "leaf_tokens (ReturnNode n) = leaf_tokens n"
| "leaf_tokens (ExprStatementNode n) = leaf_tokens n"
| "leaf_tokens (NumberNode t) = [t]"
| "leaf_tokens (IdentifierNode t) = [t]"
| "leaf_tokens (ParenExprNode n) = leaf_tokens n"
| "leaf_tokens (BinaryOperatorNode l t r) = leaf_tokens l @ [t] @ leaf_tokens r"
| "leaf_tokens (DeclarationNode t) = [t]"

definition stored :: "token \<Rightarrow> bool" where
  "stored t \<longleftrightarrow> kind t = number \<or> kind t = identifier_kind \<or> binary_operators (kind t) \<noteq> None"

text \<open>
  The token sequences \<^verbatim>\<open>int main(){ <statements/declarations> }\<close>: an expression is a
  number or an identifier, an expression in parentheses, or two expressions around a
  binary operator; an item is a return statement, an expression statement or a
  declaration; a program is the five tokens in front of the items, the items, and the
  closing brace.
\<close>

datatype expr = Atom token | Paren token expr token | Binary expr token expr

fun expr_tokens :: "expr \<Rightarrow> token list" where
  "expr_tokens (Atom a) = [a]"
| "expr_tokens (Paren l e r) = l # expr_tokens e @ [r]"
| "expr_tokens (Binary e1 t e2) = expr_tokens e1 @ t # expr_tokens e2"

fun expr_ok :: "expr \<Rightarrow> bool" where
  "expr_ok (Atom a) \<longleftrightarrow> is_atom a"
| "expr_ok (Paren l e r) \<longleftrightarrow> kind l = open_paren \<and> expr_ok e \<and> kind r = close_paren"
| "expr_ok (Binary e1 t e2) \<longleftrightarrow> expr_ok e1 \<and> binary_operators (kind t) \<noteq> None \<and> expr_ok e2"

datatype item = ReturnItem token expr token | ExprItem expr token | DeclItem token token token

fun item_tokens :: "item \<Rightarrow> token list" where
  "item_tokens (ReturnItem r e s) = r # expr_tokens e @ [s]"
| "item_tokens (ExprItem e s) = expr_tokens e @ [s]"
| "item_tokens (DeclItem t x s) = [t, x, s]"

fun item_ok :: "item \<Rightarrow> bool" where
  "item_ok (ReturnItem r e s) \<longleftrightarrow> kind r = return_kw \<and> expr_ok e \<and> kind s = semicolon"
| "item_ok (ExprItem e s) \<longleftrightarrow> expr_ok e \<and> kind s = semicolon"
| "item_ok (DeclItem t x s) \<longleftrightarrow>
     kind t = int_kw \<and> kind x = identifier_kind \<and> kind s = semicolon"

definition program_tokens :: "token list \<Rightarrow> item list \<Rightarrow> token \<Rightarrow> token list" where
  "program_tokens h items c = h @ concat (map item_tokens items) @ [c]"

definition program_ok :: "token list \<Rightarrow> item list \<Rightarrow> token \<Rightarrow> bool" where
  "program_ok h items c \<longleftrightarrow>
     map kind h = kinds_before \<and> list_all item_ok items \<and> kind c = close_brack"

definition main_example :: "token list" where
  "main_example =
     [Token int_kw ''int'', Token main ''main'', Token open_paren ''('', Token close_paren '')'',
      Token open_brack ''{'', Token return_kw ''return'', Token number ''4'',
      Token semicolon '';'', Token close_brack ''}'']"

definition header_example :: "token list" where
  "header_example =
     [Token int_kw ''int'', Token main ''main'', Token open_paren ''('', Token close_paren '')'',
      Token open_brack ''{'']"

definition items_example :: "item list" where
  "items_example =
     [DeclItem (Token int_kw ''int'') (Token identifier_kind ''x'') (Token semicolon '';''),
      ExprItem
        (Binary (Atom (Token identifier_kind ''x'')) (Token equals ''='')
           (Binary
              (Paren (Token open_paren ''('')
                 (Binary (Atom (Token number ''1'')) (Token plus_kind ''+'')
                    (Atom (Token number ''2''))) (Token close_paren '')''))
              (Token star ''*'') (Atom (Token number ''3''))))
        (Token semicolon '';''),
      ReturnItem (Token return_kw ''return'') (Atom (Token identifier_kind ''x''))
        (Token semicolon '';'')]"

text \<open>
  The configurations, stack and cursor, that the shift-reduce loop goes through from a
  given one.
\<close>

inductive reaches :: "token list \<Rightarrow> StackItem list \<Rightarrow> nat \<Rightarrow> StackItem list \<Rightarrow> nat \<Rightarrow> bool"
  for tokens :: "token list" where
  here: "reaches tokens s i s i"
| step: "expr_step tokens s i = Continue s' i' \<Longrightarrow> reaches tokens s' i' s'' i'' \<Longrightarrow>
     reaches tokens s i s'' i''"

lemma reaches_trans:
  "reaches tokens s i s' i' \<Longrightarrow> reaches tokens s' i' s'' i'' \<Longrightarrow> reaches tokens s i s'' i''"
  by (induction rule: reaches.induct) (auto intro: reaches.intros)

lemma reaches_step: "expr_step tokens s i = Continue s' i' \<Longrightarrow> reaches tokens s i s' i'"
  by (auto intro: reaches.intros)

lemma reaches_expr_loop:
  "reaches tokens s i s' i' \<Longrightarrow> expr_loop tokens s i = expr_loop tokens s' i'"
  by (induction rule: reaches.induct) (simp_all add: expr_loop_Continue)

lemma reaches_invariant:
  assumes "\<And>s j s' j'. P s j \<Longrightarrow> expr_step tokens s j = Continue s' j' \<Longrightarrow> P s' j'"
  shows "reaches tokens s i s' i' \<Longrightarrow> P s i \<Longrightarrow> P s' i'"
  by (induction rule: reaches.induct) (auto intro: assms)

text \<open>
  The stacks on which an expression is read. With the flag \<open>False\<close> the stack waits for
  an operand: it is empty or has an open parenthesis or a binary operator on top. With
  the flag \<open>True\<close> a node is on top. \<open>base_of\<close> is the part of the stack from the
  innermost open parenthesis down.
\<close>

fun wf_stack :: "bool \<Rightarrow> StackItem list \<Rightarrow> bool" where
  "wf_stack False [] = True"
| "wf_stack False (StackItem (Tok t) l # r) =
     ((kind t = open_paren \<and> wf_stack False r)
      \<or> (binary_operators (kind t) \<noteq> None \<and> wf_stack True r))"
| "wf_stack False (StackItem (Nd n) l # r) = False"
| "wf_stack True [] = False"
| "wf_stack True (StackItem (Nd n) l # r) = wf_stack False r"
| "wf_stack True (StackItem (Tok t) l # r) = False"

fun base_of :: "bool \<Rightarrow> StackItem list \<Rightarrow> StackItem list" where
  "base_of False [] = []"
| "base_of False (StackItem (Tok t) l # r) =
     (if kind t = open_paren then StackItem (Tok t) l # r else base_of True r)"
| "base_of False (StackItem (Nd n) l # r) = []"
| "base_of True [] = []"
| "base_of True (StackItem (Nd n) l # r) = base_of False r"
| "base_of True (StackItem (Tok t) l # r) = []"

lemma wf_stack_wants_operand: "wf_stack False s \<Longrightarrow> wants_operand s"
  by (cases s; cases "hd s" rule: item_cases) (auto simp: wants_operand_def)

lemma reduce_all:
  assumes "\<not> (i < length tokens \<and> binary_operators (kind (tokens ! i)) \<noteq> None)"
  shows "wf_stack True s \<Longrightarrow>
     \<exists>n l. reaches tokens s i (StackItem (Nd n) l # base_of True s) i"
proof (induction "length s" arbitrary: s rule: less_induct)
  case less
  from less.prems obtain n l r where s: "s = StackItem (Nd n) l # r" and r: "wf_stack False r"
    by (cases s; cases "hd s" rule: item_cases) auto
  show ?case
  proof (cases r)
    case Nil
    with s show ?thesis by (auto intro: reaches.here)
  next
    case (Cons x r')
    with r obtain t lt where x: "x = StackItem (Tok t) lt"
      by (cases x rule: item_cases) auto
    show ?thesis
    proof (cases "kind t = open_paren")
      case True
      with s Cons x show ?thesis by (auto intro: reaches.here)
    next
      case False
      with r Cons x have t: "binary_operators (kind t) \<noteq> None" and r': "wf_stack True r'"
        by auto
      from r' obtain n' l' r'' where r'': "r' = StackItem (Nd n') l' # r''"
        and w: "wf_stack False r''"
        by (cases r'; cases "hd r'" rule: item_cases) auto
      let ?s' = "StackItem (Nd (BinaryOperatorNode n' t n)) (l' + lt + l) # r''"
      have "expr_step tokens s i = Continue ?s' i"
        unfolding s Cons x r'' using t assms binary_operators_cases [of "kind (tokens ! i)"]
        by (intro reduce_binary) auto
      then have 1: "reaches tokens s i ?s' i" by (rule reaches_step)
      have "length ?s' < length s" using s Cons r'' by simp
      moreover have "wf_stack True ?s'" using w by simp
      ultimately obtain m k where "reaches tokens ?s' i (StackItem (Nd m) k # base_of True ?s') i"
        using less.hyps by blast
      moreover have "base_of True ?s' = base_of True s"
        using s Cons x r'' False by simp
      ultimately show ?thesis using reaches_trans [OF 1] by auto
    qed
  qed
qed

lemma shift_operator:
  assumes "i < length tokens" and "binary_operators (kind (tokens ! i)) \<noteq> None"
  shows "wf_stack True s \<Longrightarrow>
     \<exists>s'. wf_stack True s' \<and> base_of True s' = base_of True s
        \<and> reaches tokens s i (StackItem (Tok (tokens ! i)) 1 # s') (Suc i)"
proof (induction "length s" arbitrary: s rule: less_induct)
  case less
  from less.prems obtain n l r where s: "s = StackItem (Nd n) l # r" and r: "wf_stack False r"
    by (cases s; cases "hd s" rule: item_cases) auto
  show ?case
  proof (cases "binary_operator_on_top tokens s i")
    case False
    have "expr_step tokens s i = Continue (StackItem (Tok (tokens ! i)) 1 # s) (Suc i)"
      using False assms unfolding s
      by (intro shift_step) (simp_all add: never_in_expression_def)
    then have "reaches tokens s i (StackItem (Tok (tokens ! i)) 1 # s) (Suc i)"
      by (rule reaches_step)
    with less.prems show ?thesis by blast
  next
    case True
    then obtain t lt n' l' r'' where
      r'': "r = StackItem (Tok t) lt # StackItem (Nd n') l' # r''"
      unfolding s binary_operator_on_top_iff by auto
    with r have w: "wf_stack False r''" and t: "kind t \<noteq> open_paren"
      using True unfolding s r'' by (auto simp: binary_operator_on_top_iff)
    let ?s' = "StackItem (Nd (BinaryOperatorNode n' t n)) (l' + lt + l) # r''"
    have "expr_step tokens s i = Continue ?s' i"
      using True unfolding s r'' by (rule reduce_binary)
    then have 1: "reaches tokens s i ?s' i" by (rule reaches_step)
    have "length ?s' < length s" using s r'' by simp
    moreover have "wf_stack True ?s'" using w by simp
    ultimately obtain s2 where "wf_stack True s2" "base_of True s2 = base_of True ?s'"
      "reaches tokens ?s' i (StackItem (Tok (tokens ! i)) 1 # s2) (Suc i)"
      using less.hyps by blast
    moreover have "base_of True ?s' = base_of True s"
      using s r'' t by simp
    ultimately show ?thesis using reaches_trans [OF 1] by auto
  qed
qed


lemma expr_tokens_nonempty: "expr_tokens e \<noteq> []"
  by (induction e) auto

lemma expr_reaches:
  "expr_ok e \<Longrightarrow> wf_stack False s \<Longrightarrow> drop i tokens = expr_tokens e @ rest \<Longrightarrow>
     \<exists>s'. wf_stack True s' \<and> base_of True s' = base_of False s
        \<and> reaches tokens s i s' (i + length (expr_tokens e))"
proof (induction e arbitrary: s i rest)
  case (Atom a)
  then have d: "drop i tokens = a # rest" and a: "is_atom a" by simp_all
  from drop_Cons_nth [OF d] have i: "i < length tokens" and ti: "tokens ! i = a"
    by simp_all
  from a ti have "\<not> never_in_expression (kind (tokens ! i))"
    by (auto simp: never_in_expression_def is_atom_def)
  from shift_step [OF wants_operand_no_rule [OF wf_stack_wants_operand [OF Atom.prems(2)]] i this] ti
  have "reaches tokens s i (StackItem (Tok a) 1 # s) (Suc i)"
    by (simp add: reaches_step)
  moreover have "reaches tokens (StackItem (Tok a) 1 # s) (Suc i)
      (StackItem (Nd (atom_node a)) 1 # s) (Suc i)"
    by (rule reaches_step) (rule reduce_atom [OF a])
  ultimately have "reaches tokens s i (StackItem (Nd (atom_node a)) 1 # s) (Suc i)"
    by (rule reaches_trans)
  with Atom.prems(2) show ?case
    by (intro exI [of _ "StackItem (Nd (atom_node a)) 1 # s"]) simp
next
  case (Paren l e r)
  then have l: "kind l = open_paren" and e: "expr_ok e" and r: "kind r = close_paren"
    by simp_all
  from Paren.prems(3) have d0: "drop i tokens = l # expr_tokens e @ r # rest"
    by simp
  from drop_Cons_nth [OF d0] have i: "i < length tokens" and ti: "tokens ! i = l"
    and d1: "drop (Suc i) tokens = expr_tokens e @ r # rest"
    by simp_all
  let ?j = "Suc i + length (expr_tokens e)"
  from drop_append_length [OF d1] i have d2: "drop ?j tokens = r # rest"
    by simp
  from drop_Cons_nth [OF d2] have j: "?j < length tokens" and tj: "tokens ! ?j = r"
    by simp_all
  let ?s1 = "StackItem (Tok l) 1 # s"
  from l ti have "\<not> never_in_expression (kind (tokens ! i))"
    by (simp add: never_in_expression_def)
  from shift_step [OF wants_operand_no_rule [OF wf_stack_wants_operand [OF Paren.prems(2)]] i this] ti
  have 1: "reaches tokens s i ?s1 (Suc i)"
    by (simp add: reaches_step)
  have w1: "wf_stack False ?s1" using l Paren.prems(2) by simp
  from Paren.IH [OF e w1 d1] obtain s2 where w2: "wf_stack True s2"
    and b2: "base_of True s2 = base_of False ?s1" and 2: "reaches tokens ?s1 (Suc i) s2 ?j"
    by blast
  have "\<not> (?j < length tokens \<and> binary_operators (kind (tokens ! ?j)) \<noteq> None)"
    using tj r by simp
  from reduce_all [OF this w2] b2 l obtain n k where
    3: "reaches tokens s2 ?j (StackItem (Nd n) k # ?s1) ?j"
    by auto
  have "expr_step tokens (StackItem (Nd n) k # ?s1) ?j
      = Continue (StackItem (Tok (tokens ! ?j)) 1 # StackItem (Nd n) k # ?s1) (Suc ?j)"
    using j tj r l
    by (intro shift_step) (simp_all add: never_in_expression_def binary_operator_on_top_iff)
  then have 4: "reaches tokens (StackItem (Nd n) k # ?s1) ?j
      (StackItem (Tok r) 1 # StackItem (Nd n) k # ?s1) (Suc ?j)"
    using tj by (simp add: reaches_step)
  have 5: "reaches tokens (StackItem (Tok r) 1 # StackItem (Nd n) k # ?s1) (Suc ?j)
      (StackItem (Nd (ParenExprNode n)) (k + 2) # s) (Suc ?j)"
    by (rule reaches_step) (rule reduce_paren [OF r l])
  from 1 2 3 4 5 have "reaches tokens s i (StackItem (Nd (ParenExprNode n)) (k + 2) # s) (Suc ?j)"
    by (blast intro: reaches_trans)
  with Paren.prems(2) show ?case
    by (intro exI [of _ "StackItem (Nd (ParenExprNode n)) (k + 2) # s"]) simp
next
  case (Binary e1 t e2)
  then have e1: "expr_ok e1" and t: "binary_operators (kind t) \<noteq> None" and e2: "expr_ok e2"
    by simp_all
  from Binary.prems(3)
  have d0: "drop i tokens = expr_tokens e1 @ t # expr_tokens e2 @ rest"
    by simp
  from Binary.IH(1) [OF e1 Binary.prems(2) d0] obtain s1 where w1: "wf_stack True s1"
    and b1: "base_of True s1 = base_of False s"
    and 1: "reaches tokens s i s1 (i + length (expr_tokens e1))"
    by blast
  let ?j = "i + length (expr_tokens e1)"
  have "i \<le> length tokens"
    using d0 expr_tokens_nonempty [of e1] by (cases "i \<le> length tokens") auto
  from drop_append_length [OF d0 this]
  have d1: "drop ?j tokens = t # expr_tokens e2 @ rest"
    by simp
  from drop_Cons_nth [OF d1] have j: "?j < length tokens" and tj: "tokens ! ?j = t"
    and d2: "drop (Suc ?j) tokens = expr_tokens e2 @ rest"
    by simp_all
  from shift_operator [OF j _ w1] t tj obtain s2 where w2: "wf_stack True s2"
    and b2: "base_of True s2 = base_of True s1"
    and 2: "reaches tokens s1 ?j (StackItem (Tok t) 1 # s2) (Suc ?j)"
    by auto
  have w3: "wf_stack False (StackItem (Tok t) 1 # s2)" using t w2 by simp
  from Binary.IH(2) [OF e2 w3 d2] obtain s3 where w4: "wf_stack True s3"
    and b3: "base_of True s3 = base_of False (StackItem (Tok t) 1 # s2)"
    and 3: "reaches tokens (StackItem (Tok t) 1 # s2) (Suc ?j) s3 (Suc ?j + length (expr_tokens e2))"
    by blast
  from t have "kind t \<noteq> open_paren" by auto
  with b1 b2 b3 have "base_of True s3 = base_of False s" by simp
  moreover from 1 2 3 have "reaches tokens s i s3 (Suc ?j + length (expr_tokens e2))"
    by (blast intro: reaches_trans)
  ultimately show ?case using w4
    by (intro exI [of _ s3]) (simp add: add.assoc)
qed


text \<open>
  The stored tokens among those shifted so far are the leaf tokens of the stack, read from
  the bottom up.
\<close>

fun item_leaves :: "StackItem \<Rightarrow> token list" where
  "item_leaves (StackItem (Tok t) l) = filter stored [t]"
| "item_leaves (StackItem (Nd n) l) = leaf_tokens n"

definition leaves_inv :: "token list \<Rightarrow> nat \<Rightarrow> StackItem list \<Rightarrow> nat \<Rightarrow> bool" where
  "leaves_inv tokens index s i \<longleftrightarrow>
     span_inv tokens index s i
     \<and> concat (map item_leaves (rev s)) = filter stored (take (i - index) (drop index tokens))"

lemma leaves_inv_step:
  assumes "leaves_inv tokens index s j" and "expr_step tokens s j = Continue s' j'"
  shows "leaves_inv tokens index s' j'"
proof -
  from assms(1) have sp: "span_inv tokens index s j"
    and lv: "concat (map item_leaves (rev s))
        = filter stored (take (j - index) (drop index tokens))"
    by (simp_all add: leaves_inv_def)
  from span_inv_step [OF sp assms(2)] have sp': "span_inv tokens index s' j'" .
  from assms(2) have "concat (map item_leaves (rev s'))
      = filter stored (take (j' - index) (drop index tokens))"
  proof (cases rule: expr_step_cases)
    case (num t l r)
    with lv show ?thesis by (simp add: stored_def)
  next
    case (ident t l r)
    with lv show ?thesis by (simp add: stored_def)
  next
    case (paren tc lc n ln tp lp r)
    with lv show ?thesis by (simp add: stored_def)
  next
    case (bin nr lr t lt nl ll r)
    with lv show ?thesis by (simp add: stored_def)
  next
    case shift
    from sp have ij: "index \<le> j" by (simp add: span_inv_def)
    with shift(1) have "j - index < length (drop index tokens)" by simp
    from take_Suc_conv_app_nth [OF this] ij shift(1)
    have "take (Suc j - index) (drop index tokens)
        = take (j - index) (drop index tokens) @ [tokens ! j]"
      by (simp add: Suc_diff_le)
    with lv shift show ?thesis by simp
  qed
  with sp' show ?thesis by (simp add: leaves_inv_def)
qed

lemma reaches_leaves_inv:
  "reaches tokens s i s' i' \<Longrightarrow> leaves_inv tokens index s i \<Longrightarrow> leaves_inv tokens index s' i'"
  by (rule reaches_invariant [where P = "leaves_inv tokens index"]) (rule leaves_inv_step)

lemma parse_expression_complete:
  assumes "expr_ok e" and "drop i tokens = expr_tokens e @ rest"
    and "rest = [] \<or> never_in_expression (kind (hd rest))"
  shows "\<exists>n. parse_expression tokens i = Inr (n, i + length (expr_tokens e))
           \<and> leaf_tokens n = filter stored (expr_tokens e)"
proof -
  let ?j = "i + length (expr_tokens e)"
  have i: "i \<le> length tokens"
    using assms(2) expr_tokens_nonempty [of e] by (cases "i \<le> length tokens") auto
  from drop_append_length [OF assms(2) i] have j: "?j \<le> length tokens"
    and dj: "drop ?j tokens = rest"
    by simp_all
  have stop: "?j = length tokens
      \<or> (?j < length tokens \<and> never_in_expression (kind (tokens ! ?j)))"
  proof (cases rest)
    case Nil
    with dj j show ?thesis by simp
  next
    case (Cons x xs)
    with dj assms(3) drop_Cons_nth [of ?j tokens x xs] show ?thesis by simp
  qed
  from expr_reaches [OF assms(1) _ assms(2), of "[]"] obtain s1 where w1: "wf_stack True s1"
    and b1: "base_of True s1 = []" and 1: "reaches tokens [] i s1 ?j"
    by auto
  have "\<not> (?j < length tokens \<and> binary_operators (kind (tokens ! ?j)) \<noteq> None)"
    using stop by (auto simp: never_in_expression_def)
  from reduce_all [OF this w1] b1 obtain n l where
    2: "reaches tokens s1 ?j [StackItem (Nd n) l] ?j"
    by auto
  from 1 2 have r: "reaches tokens [] i [StackItem (Nd n) l] ?j"
    by (rule reaches_trans)
  have "leaves_inv tokens i [] i"
    using i by (simp add: leaves_inv_def span_inv_def stack_span_def)
  from reaches_leaves_inv [OF r this] have l: "l = length (expr_tokens e)"
    and lv: "leaf_tokens n = filter stored (expr_tokens e)"
    using assms(2) by (simp_all add: leaves_inv_def span_inv_def stack_span_def)
  have "expr_step tokens [StackItem (Nd n) l] ?j = Break"
    using stop by (intro break_step) simp_all
  then have "expr_loop tokens [StackItem (Nd n) l] ?j = Inr [StackItem (Nd n) l]"
    by (rule expr_loop_Break)
  with reaches_expr_loop [OF r] have "expr_loop tokens [] i = Inr [StackItem (Nd n) l]"
    by simp
  then have "parse_expression tokens i = Inr (n, i + l)"
    by (simp add: parse_expression_def)
  with l lv show ?thesis by blast
qed


lemma expr_first:
  "expr_ok e \<Longrightarrow> \<exists>x xs. expr_tokens e = x # xs \<and> (is_atom x \<or> kind x = open_paren)"
  by (induction e) auto

lemma parse_expression_stop:
  assumes "i < length tokens" and "never_in_expression (kind (tokens ! i))"
  shows "parse_expression tokens i = Inl (ParserErr (ParserError ''expected expression'' i GOT))"
proof -
  have "expr_step tokens [] i = Break"
    using assms by (intro break_step) simp_all
  then have "expr_loop tokens [] i = Inr []" by (rule expr_loop_Break)
  then show ?thesis by (simp add: parse_expression_def)
qed

lemma return_item_parse:
  assumes "item_ok (ReturnItem r e s)" and "drop i tokens = item_tokens (ReturnItem r e s) @ rest"
  shows "\<exists>n. parse_statement tokens i b
            = (Inr (n, i + length (item_tokens (ReturnItem r e s))), b)
           \<and> leaf_tokens n = filter stored (item_tokens (ReturnItem r e s))"
proof -
  from assms(1) have r: "kind r = return_kw" and e: "expr_ok e" and s: "kind s = semicolon"
    by simp_all
  from assms(2) have d0: "drop i tokens = r # expr_tokens e @ s # rest" by simp
  from drop_Cons_nth [OF d0] have i: "i < length tokens" and ti: "tokens ! i = r"
    and d1: "drop (Suc i) tokens = expr_tokens e @ s # rest"
    by simp_all
  let ?j = "Suc i + length (expr_tokens e)"
  from drop_append_length [OF d1] i have dj: "drop ?j tokens = s # rest" by simp
  from drop_Cons_nth [OF dj] have j: "?j < length tokens" and tj: "tokens ! ?j = s"
    by simp_all
  from parse_expression_complete [OF e d1] s obtain n
    where pe: "parse_expression tokens (Suc i) = Inr (n, ?j)"
      and lv: "leaf_tokens n = filter stored (expr_tokens e)"
    by (auto simp: never_in_expression_def)
  from i ti r pe j tj s have "parse_return tokens i = Inr (ReturnNode n, Suc ?j)"
    by (simp add: parse_return_def match_token_eq expect_semicolon_eq)
  then have "parse_statement tokens i b = (Inr (ReturnNode n, Suc ?j), b)"
    by (simp add: parse_statement_def)
  moreover have "leaf_tokens (ReturnNode n) = filter stored (item_tokens (ReturnItem r e s))"
    using lv r s by (simp add: stored_def)
  ultimately show ?thesis by (intro exI [of _ "ReturnNode n"]) simp
qed

lemma expr_item_parse:
  assumes "item_ok (ExprItem e s)" and "drop i tokens = item_tokens (ExprItem e s) @ rest"
  shows "\<exists>n b'. parse_statement tokens i b
            = (Inr (n, i + length (item_tokens (ExprItem e s))), b')
           \<and> leaf_tokens n = filter stored (item_tokens (ExprItem e s))"
proof -
  from assms(1) have e: "expr_ok e" and s: "kind s = semicolon"
    by simp_all
  from assms(2) have d0: "drop i tokens = expr_tokens e @ s # rest" by simp
  from expr_first [OF e] obtain x xs where x: "expr_tokens e = x # xs"
    and kx: "is_atom x \<or> kind x = open_paren"
    by blast
  with d0 have "drop i tokens = x # xs @ s # rest" by simp
  from drop_Cons_nth [OF this] have i: "i < length tokens" and ti: "tokens ! i = x"
    by simp_all
  let ?j = "i + length (expr_tokens e)"
  from drop_append_length [OF d0] i have dj: "drop ?j tokens = s # rest" by simp
  from drop_Cons_nth [OF dj] have j: "?j < length tokens" and tj: "tokens ! ?j = s"
    by simp_all
  from parse_expression_complete [OF e d0] s obtain n
    where pe: "parse_expression tokens i = Inr (n, ?j)"
      and lv: "leaf_tokens n = filter stored (expr_tokens e)"
    by (auto simp: never_in_expression_def)
  from ti kx have "parse_return tokens i
      = Inl (ParserErr (ParserError ''expected return keyword'' i GOT))"
    by (auto simp: parse_return_def match_token_eq is_atom_def)
  moreover from pe j tj s
  have "parse_expr_statement tokens i = Inr (ExprStatementNode n, Suc ?j)"
    by (simp add: parse_expr_statement_def expect_semicolon_eq)
  ultimately have "parse_statement tokens i b
      = (Inr (ExprStatementNode n, Suc ?j),
         log_error b (ParserError ''expected return keyword'' i GOT))"
    by (simp add: parse_statement_def)
  moreover have "leaf_tokens (ExprStatementNode n) = filter stored (item_tokens (ExprItem e s))"
    using lv s by (simp add: stored_def)
  ultimately show ?thesis by (intro exI [of _ "ExprStatementNode n"]) simp
qed

lemma decl_item_parse:
  assumes "item_ok (DeclItem t x s)" and "drop i tokens = item_tokens (DeclItem t x s) @ rest"
  shows "\<exists>n e b'. parse_statement tokens i b = (Inl (ParserErr e), b')
           \<and> parse_declaration tokens i = Inr (n, i + length (item_tokens (DeclItem t x s)))
           \<and> leaf_tokens n = filter stored (item_tokens (DeclItem t x s))"
proof -
  from assms(1) have t: "kind t = int_kw" and x: "kind x = identifier_kind"
    and s: "kind s = semicolon"
    by simp_all
  from assms(2) have d0: "drop i tokens = t # x # s # rest" by simp
  from drop_Cons_nth [OF d0] have i: "i < length tokens" and ti: "tokens ! i = t"
    and d1: "drop (Suc i) tokens = x # s # rest"
    by simp_all
  from drop_Cons_nth [OF d1] have i1: "Suc i < length tokens" and ti1: "tokens ! Suc i = x"
    and d2: "drop (Suc (Suc i)) tokens = s # rest"
    by simp_all
  from drop_Cons_nth [OF d2] have i2: "Suc (Suc i) < length tokens"
    and ti2: "tokens ! Suc (Suc i) = s"
    by simp_all
  from ti t have "parse_return tokens i
      = Inl (ParserErr (ParserError ''expected return keyword'' i GOT))"
    by (simp add: parse_return_def match_token_eq)
  moreover from i ti t have "parse_expression tokens i
      = Inl (ParserErr (ParserError ''expected expression'' i GOT))"
    by (intro parse_expression_stop) (simp_all add: never_in_expression_def)
  ultimately have "parse_statement tokens i b
      = (Inl (ParserErr (ParserError ''expected expression'' i GOT)),
         log_error b (ParserError ''expected return keyword'' i GOT))"
    by (simp add: parse_statement_def parse_expr_statement_def)
  moreover from i ti t i1 ti1 x i2 ti2 s
  have "parse_declaration tokens i = Inr (DeclarationNode x, Suc (Suc (Suc i)))"
    by (simp add: parse_declaration_def match_token_eq expect_semicolon_eq)
  moreover have "leaf_tokens (DeclarationNode x) = filter stored (item_tokens (DeclItem t x s))"
    using t x s by (simp add: stored_def)
  ultimately show ?thesis by (intro exI [of _ "DeclarationNode x"]) simp
qed

lemma main_loop_complete:
  assumes "kind c = close_brack"
  shows "list_all item_ok items \<Longrightarrow>
     drop i tokens = concat (map item_tokens items) @ c # rest \<Longrightarrow>
     \<exists>ns b'. main_loop tokens i nodes b
          = (Inr (nodes @ ns, i + length (concat (map item_tokens items))), b')
        \<and> concat (map leaf_tokens ns) = filter stored (concat (map item_tokens items))"
proof (induction items arbitrary: i nodes b)
  case Nil
  then have d: "drop i tokens = c # rest" by simp
  from drop_Cons_nth [OF d] have i: "i < length tokens" and ti: "tokens ! i = c"
    by simp_all
  from ti assms have "parse_return tokens i
      = Inl (ParserErr (ParserError ''expected return keyword'' i GOT))"
    by (simp add: parse_return_def match_token_eq)
  moreover from i ti assms have "parse_expression tokens i
      = Inl (ParserErr (ParserError ''expected expression'' i GOT))"
    by (intro parse_expression_stop) (simp_all add: never_in_expression_def)
  ultimately have "parse_statement tokens i b
      = (Inl (ParserErr (ParserError ''expected expression'' i GOT)),
         log_error b (ParserError ''expected return keyword'' i GOT))"
    by (simp add: parse_statement_def parse_expr_statement_def)
  moreover from ti assms have "parse_declaration tokens i
      = Inl (ParserErr (ParserError ''expected type name'' i GOT))"
    by (simp add: parse_declaration_def match_token_eq)
  ultimately have "\<exists>b'. main_loop tokens i nodes b = (Inr (nodes, i), b')"
    by (simp add: main_loop.simps [of tokens i])
  then show ?case by auto
next
  case (Cons it items)
  from Cons.prems have ok: "item_ok it" and oks: "list_all item_ok items"
    and d0: "drop i tokens = item_tokens it @ concat (map item_tokens items) @ c # rest"
    by simp_all
  let ?j = "i + length (item_tokens it)"
  have "item_tokens it \<noteq> []" by (cases it) simp_all
  then have "i \<le> length tokens" using d0 by (cases "i \<le> length tokens") auto
  from drop_append_length [OF d0 this]
  have dj: "drop ?j tokens = concat (map item_tokens items) @ c # rest"
    by simp
  have "\<exists>n b1. main_loop tokens i nodes b = main_loop tokens ?j (nodes @ [n]) b1
      \<and> leaf_tokens n = filter stored (item_tokens it)"
  proof (cases it)
    case (ReturnItem r e s)
    from return_item_parse [OF ok [unfolded ReturnItem] d0 [unfolded ReturnItem], of b]
    obtain n where ps: "parse_statement tokens i b = (Inr (n, ?j), b)"
      and lv: "leaf_tokens n = filter stored (item_tokens it)"
      unfolding ReturnItem by blast
    from ps have "main_loop tokens i nodes b = main_loop tokens ?j (nodes @ [n]) b"
      by (simp add: main_loop.simps [of tokens i])
    with lv show ?thesis by blast
  next
    case (ExprItem e s)
    from expr_item_parse [OF ok [unfolded ExprItem] d0 [unfolded ExprItem], of b]
    obtain n b' where ps: "parse_statement tokens i b = (Inr (n, ?j), b')"
      and lv: "leaf_tokens n = filter stored (item_tokens it)"
      unfolding ExprItem by blast
    from ps have "main_loop tokens i nodes b = main_loop tokens ?j (nodes @ [n]) b'"
      by (simp add: main_loop.simps [of tokens i])
    with lv show ?thesis by blast
  next
    case (DeclItem t x s)
    from decl_item_parse [OF ok [unfolded DeclItem] d0 [unfolded DeclItem], of b]
    obtain n e b' where ps: "parse_statement tokens i b = (Inl (ParserErr e), b')"
      and pd: "parse_declaration tokens i = Inr (n, ?j)"
      and lv: "leaf_tokens n = filter stored (item_tokens it)"
      unfolding DeclItem by blast
    from ps pd
    have "main_loop tokens i nodes b = main_loop tokens ?j (nodes @ [n]) (log_error b' e)"
      by (simp add: main_loop.simps [of tokens i])
    with lv show ?thesis by blast
  qed
  then obtain n b1 where m: "main_loop tokens i nodes b = main_loop tokens ?j (nodes @ [n]) b1"
    and lv: "leaf_tokens n = filter stored (item_tokens it)"
    by blast
  from Cons.IH [OF oks dj, of "nodes @ [n]" b1] obtain ns b' where
    "main_loop tokens ?j (nodes @ [n]) b1
       = (Inr ((nodes @ [n]) @ ns, ?j + length (concat (map item_tokens items))), b')"
    and "concat (map leaf_tokens ns) = filter stored (concat (map item_tokens items))"
    by blast
  with m lv show ?case
    by (intro exI [of _ "n # ns"] exI [of _ b']) (simp add: add.assoc)
qed

text \<open>
  C5, as amended: for every valid token sequence of the form
  \<^verbatim>\<open>int main(){ <statements/declarations> }\<close>, \<^verbatim>\<open>parse\<close> succeeds, and the leaf tokens of
  the tree it returns, read from left to right, are the numbers, identifiers and binary
  operators of the input, in the order of the input. The keywords, the parentheses, the
  braces and the semicolons are consumed and are not in the tree.
\<close>

theorem parse_leaf_tokens:
  assumes "program_ok h items c"
  shows "\<exists>tree. parse (program_tokens h items c) = Inr tree
           \<and> leaf_tokens tree = filter stored (program_tokens h items c)"
proof -
  let ?body = "concat (map item_tokens items)"
  let ?t = "program_tokens h items c"
  from assms have h: "map kind h = kinds_before" and items: "list_all item_ok items"
    and c: "kind c = close_brack"
    by (simp_all add: program_ok_def)
  have "length (map kind h) = length h" by simp
  then have lh: "length h = 5" unfolding h by (simp add: kinds_before_def)
  have "list_all (\<lambda>(k, t). k = kind t) (zip kinds_before (drop 0 ?t))
      = (map kind (take (length kinds_before) (drop 0 ?t)) = kinds_before)"
    using lh by (intro zip_kinds_match) (simp add: program_tokens_def kinds_before_def)
  then have "match_tokens ?t 0 kinds_before = Inr 5"
    using h lh by (simp add: match_tokens_def program_tokens_def kinds_before_def)
  moreover have "drop 5 ?t = ?body @ c # []"
    using lh by (simp add: program_tokens_def)
  from main_loop_complete [OF c items this, of "[]" None] obtain ns b' where
    ml: "main_loop ?t 5 [] None = (Inr (ns, 5 + length ?body), b')"
    and lv: "concat (map leaf_tokens ns) = filter stored ?body"
    by auto
  moreover have "match_token ?t (5 + length ?body) close_brack = Inr (Suc (5 + length ?body))"
    using lh c by (simp add: match_token_eq program_tokens_def nth_append)
  ultimately have "parse_main ?t 0 None = (Inr (MainNode ns, Suc (5 + length ?body)), b')"
    by (simp add: parse_main_def)
  moreover have "length ?t = Suc (5 + length ?body)"
    using lh by (simp add: program_tokens_def)
  ultimately have p: "parse ?t = Inr (MainNode ns)"
    by (simp add: parse_def)
  have "\<forall>x \<in> set h. \<not> stored x"
  proof
    fix x assume "x \<in> set h"
    then have "kind x \<in> set (map kind h)" by simp
    then show "\<not> stored x" unfolding h by (auto simp: kinds_before_def stored_def)
  qed
  then have "filter stored h = []" by (simp add: filter_empty_conv)
  with lv c have "leaf_tokens (MainNode ns) = filter stored ?t"
    by (simp add: program_tokens_def stored_def)
  with p show ?thesis by blast
qed


theorem parse_leaf_tokens_witness:
  "program_ok header_example items_example (Token close_brack ''}'')
   \<and> parse (program_tokens header_example items_example (Token close_brack ''}''))
     = Inr (MainNode
         [DeclarationNode (Token identifier_kind ''x''),
          ExprStatementNode
            (BinaryOperatorNode (IdentifierNode (Token identifier_kind ''x'')) (Token equals ''='')
               (BinaryOperatorNode
                  (ParenExprNode
                     (BinaryOperatorNode (NumberNode (Token number ''1'')) (Token plus_kind ''+'')
                        (NumberNode (Token number ''2''))))
                  (Token star ''*'') (NumberNode (Token number ''3'')))),
          ReturnNode (IdentifierNode (Token identifier_kind ''x''))])
   \<and> filter stored (program_tokens header_example items_example (Token close_brack ''}''))
     = [Token identifier_kind ''x'', Token identifier_kind ''x'', Token equals ''='',
        Token number ''1'', Token plus_kind ''+'', Token number ''2'', Token star ''*'',
        Token number ''3'', Token identifier_kind ''x'']"
proof -
  have ok: "program_ok header_example items_example (Token close_brack ''}'')"
    by (simp add: program_ok_def header_example_def items_example_def kinds_before_def
          is_atom_def)
  have p: "parse (program_tokens header_example items_example (Token close_brack ''}''))
     = Inr (MainNode
         [DeclarationNode (Token identifier_kind ''x''),
          ExprStatementNode
            (BinaryOperatorNode (IdentifierNode (Token identifier_kind ''x'')) (Token equals ''='')
               (BinaryOperatorNode
                  (ParenExprNode
                     (BinaryOperatorNode (NumberNode (Token number ''1'')) (Token plus_kind ''+'')
                        (NumberNode (Token number ''2''))))
                  (Token star ''*'') (NumberNode (Token number ''3'')))),
          ReturnNode (IdentifierNode (Token identifier_kind ''x''))])"
    by code_simp
  from parse_leaf_tokens [OF ok] obtain tree where
    "parse (program_tokens header_example items_example (Token close_brack ''}'')) = Inr tree"
    and "leaf_tokens tree
       = filter stored (program_tokens header_example items_example (Token close_brack ''}''))"
    by blast
  with p have "filter stored (program_tokens header_example items_example (Token close_brack ''}''))
     = [Token identifier_kind ''x'', Token identifier_kind ''x'', Token equals ''='',
        Token number ''1'', Token plus_kind ''+'', Token number ''2'', Token star ''*'',
        Token number ''3'', Token identifier_kind ''x'']"
    by auto
  with ok p show ?thesis by simp
qed


text \<open>
  The claim as it was stated has the leaf tokens reproduce the whole input. For
  \<^verbatim>\<open>int main(){ return 4; }\<close> the tree is \<open>MainNode [ReturnNode (NumberNode 4)]\<close>, whose only
  leaf token is the \<^verbatim>\<open>4\<close>.
\<close>

theorem round_trip_counterexample:
  "parse main_example = Inr (MainNode [ReturnNode (NumberNode (Token number ''4''))])
   \<and> leaf_tokens (MainNode [ReturnNode (NumberNode (Token number ''4''))]) = [Token number ''4'']
   \<and> [Token number ''4''] \<noteq> main_example"
proof -
  have "parse main_example = Inr (MainNode [ReturnNode (NumberNode (Token number ''4''))])"
    by code_simp
  then show ?thesis by (simp add: main_example_def)
qed



end
